theory Spec2Isabelle
  imports Main
begin

section \<open>Repaint fence (sdf\_model.cpp)\<close>

text \<open>
  The anonymous namespace of sdf\_model.cpp holds the two globals
  \<^verbatim>\<open>std::atomic<uint64_t> RepaintFence = 1\<close> and \<^verbatim>\<open>bool RepaintRequested = false\<close>.
  The fence is a 64-bit unsigned counter: it is a natural number below \<open>2 ^ 64\<close>, and
  \<^verbatim>\<open>fetch_add(1)\<close> is addition modulo \<open>2 ^ 64\<close>.
\<close>

record repaint_state =
  RepaintFence :: nat
  RepaintRequested :: bool

definition initial_repaint :: repaint_state where
  "initial_repaint = \<lparr>RepaintFence = 1, RepaintRequested = False\<rparr>"

definition FlagSceneRepaint :: "repaint_state \<Rightarrow> repaint_state" where
  "FlagSceneRepaint s = s\<lparr>RepaintRequested := True\<rparr>"

definition PostPendingRepaintRequest :: "repaint_state \<Rightarrow> repaint_state" where
  "PostPendingRepaintRequest s =
     (if RepaintRequested s
      then s\<lparr>RepaintFence := (RepaintFence s + 1) mod 2 ^ 64, RepaintRequested := False\<rparr>
      else s)"

text \<open>
  One rendered frame whose view matrix changed: the frame renderer calls
  \<^verbatim>\<open>FlagSceneRepaint()\<close> and, after rendering, \<^verbatim>\<open>PostPendingRepaintRequest()\<close>.
\<close>

definition repaint_frame :: "repaint_state \<Rightarrow> repaint_state" where
  "repaint_frame s = PostPendingRepaintRequest (FlagSceneRepaint s)"

definition repaint_frames :: "nat \<Rightarrow> repaint_state \<Rightarrow> repaint_state" where
  "repaint_frames n s = (repaint_frame ^^ n) s"

text \<open>Any sequence of calls to the two functions, in program order.\<close>

datatype repaint_op = OpFlag | OpPost

fun apply_repaint_op :: "repaint_op \<Rightarrow> repaint_state \<Rightarrow> repaint_state" where
  "apply_repaint_op OpFlag s = FlagSceneRepaint s"
| "apply_repaint_op OpPost s = PostPendingRepaintRequest s"

definition run_repaint_ops :: "repaint_op list \<Rightarrow> repaint_state \<Rightarrow> repaint_state" where
  "run_repaint_ops ops s = fold apply_repaint_op ops s"

subsection \<open>Coloring groups\<close>

text \<open>
  \<^verbatim>\<open>InstanceColoringGroup\<close> (sdf\_model.h). \<^verbatim>\<open>VertexGroup\<close> points into the Drawable's
  \<^verbatim>\<open>MaterialSlots\<close> vector and is modelled as the slot's position there; \<^verbatim>\<open>Colors\<close> is the
  pending color buffer (guarded by \<^verbatim>\<open>ColorCS\<close>). The constructor leaves \<^verbatim>\<open>Colors\<close> empty and
  \<^verbatim>\<open>LastRepaint\<close> at its default 0.
\<close>

record 'c InstanceColoringGroup =
  VertexGroup :: nat
  IndexStart :: nat
  IndexRange :: nat
  Colors :: "'c list"
  LastRepaint :: nat

definition new_InstanceColoringGroup :: "nat \<Rightarrow> nat \<Rightarrow> nat \<Rightarrow> 'c InstanceColoringGroup" where
  "new_InstanceColoringGroup InVertexGroup InIndexStart InIndexRange =
     \<lparr>VertexGroup = InVertexGroup, IndexStart = InIndexStart, IndexRange = InIndexRange,
      Colors = [], LastRepaint = 0\<rparr>"

text \<open>
  \<^verbatim>\<open>StartRepaint\<close> loads the fence, compares, stamps the group when the stamp differs, and
  returns \<^verbatim>\<open>ColorIsCurrent\<close>: \<open>True\<close> means "already current", \<open>False\<close> means "stale".
\<close>

definition StartRepaint ::
  "repaint_state \<Rightarrow> 'c InstanceColoringGroup \<Rightarrow> bool \<times> 'c InstanceColoringGroup" where
  "StartRepaint s g =
     (let CurrentFence = RepaintFence s;
          ColorIsCurrent = (LastRepaint g = CurrentFence)
      in (ColorIsCurrent, if \<not> ColorIsCurrent then g\<lparr>LastRepaint := CurrentFence\<rparr> else g))"

text \<open>
  A run of the program as seen by one coloring group: the scene is flagged, a pending
  repaint is posted, or the group's \<^verbatim>\<open>StartRepaint\<close> is called. Each call of
  \<^verbatim>\<open>StartRepaint\<close> is logged with the fence value it loaded and the value it returned.
\<close>

datatype group_event = EvFlag | EvPost | EvStartRepaint

record 'c group_run =
  gr_fence :: repaint_state
  gr_group :: "'c InstanceColoringGroup"
  gr_log :: "(nat \<times> bool) list"

fun group_step :: "'c group_run \<Rightarrow> group_event \<Rightarrow> 'c group_run" where
  "group_step r EvFlag = r\<lparr>gr_fence := FlagSceneRepaint (gr_fence r)\<rparr>"
| "group_step r EvPost = r\<lparr>gr_fence := PostPendingRepaintRequest (gr_fence r)\<rparr>"
| "group_step r EvStartRepaint =
     (case StartRepaint (gr_fence r) (gr_group r) of
        (ColorIsCurrent, g') \<Rightarrow>
          r\<lparr>gr_group := g', gr_log := gr_log r @ [(RepaintFence (gr_fence r), ColorIsCurrent)]\<rparr>)"

definition group_run_events :: "'c group_run \<Rightarrow> group_event list \<Rightarrow> 'c group_run" where
  "group_run_events r es = foldl group_step r es"

text \<open>The values \<^verbatim>\<open>StartRepaint\<close> returned while the fence had the value \<open>v\<close>, in call order.\<close>

definition reports_at :: "nat \<Rightarrow> (nat \<times> bool) list \<Rightarrow> bool list" where
  "reports_at v lg = map snd (filter (\<lambda>e. fst e = v) lg)"

text \<open>
  "Stale exactly once": the reports at one fence value are empty (no call happened at that
  value) or start with the single stale report and continue with "current" only.
\<close>

definition stale_exactly_once :: "bool list \<Rightarrow> bool" where
  "stale_exactly_once rs = (rs = [] \<or> rs = False # replicate (length rs - 1) True)"

text \<open>The invariant of a run while the fence has not wrapped around.\<close>

definition group_inv :: "'c group_run \<Rightarrow> bool" where
  "group_inv r =
     (let f = RepaintFence (gr_fence r); l = LastRepaint (gr_group r) in
      l \<le> f \<and> (\<forall>e \<in> set (gr_log r). fst e \<le> f) \<and>
      (l \<noteq> f \<longrightarrow> reports_at f (gr_log r) = []) \<and>
      (l = f \<longrightarrow> reports_at f (gr_log r) \<noteq> []) \<and>
      (\<forall>v. stale_exactly_once (reports_at v (gr_log r))))"


section \<open>Ray marching an instance (sdf\_model.cpp)\<close>

text \<open>
  \<^verbatim>\<open>SDFModel::RayMarch\<close> uses three collaborators that live outside the instance layer:
  the inverse of the instance transform applied to a point, the inverse rotation applied to
  a direction, and the evaluator's own ray march. They are fields of the environment
  record; vectors, hits and the float \<^verbatim>\<open>Epsilon\<close> stay abstract types.
\<close>

record ('v, 'h) ray_env =
  ApplyInv :: "'v \<Rightarrow> 'v"
  InvRotate :: "'v \<Rightarrow> 'v"
  EvaluatorRayMarch :: "'v \<Rightarrow> 'v \<Rightarrow> int \<Rightarrow> 'h"

definition RayMarch :: "('v, 'h) ray_env \<Rightarrow> 'v \<Rightarrow> 'v \<Rightarrow> int \<Rightarrow> 'e \<Rightarrow> 'h" where
  "RayMarch m RayStart RayDir MaxIterations Epsilon =
     (let RelativeOrigin = ApplyInv m RayStart;
          RelativeRayDir = InvRotate m RayDir
      in EvaluatorRayMarch m RelativeOrigin RelativeRayDir 1000)"

section \<open>SequenceGenerator (parallel\_task.h)\<close>

text \<open>
  \<^verbatim>\<open>size_t\<close> is a natural number below \<open>2 ^ 64\<close>; every addition the code performs on
  it is written with its wrap-around. \<^verbatim>\<open>Progress\<close> is the atomic cursor.
\<close>

record Slice =
  Start :: nat
  StopBefore :: nat

record SequenceGenerator =
  sg_Lanes :: "Slice list"
  sg_Progress :: nat

text \<open>
  The \<^verbatim>\<open>for\<close> loop of \<^verbatim>\<open>Reset\<close>: \<open>LaneIndex\<close> counts up to \<open>Partitions\<close>, a lane is appended
  while the next slice is not empty, and the loop breaks at the first empty slice.
\<close>

function Reset_loop :: "nat \<Rightarrow> nat \<Rightarrow> nat \<Rightarrow> nat \<Rightarrow> nat \<Rightarrow> Slice list \<Rightarrow> Slice list" where
  "Reset_loop Count Partitions SliceCount LaneIndex SliceStart Lanes =
     (if LaneIndex < Partitions
      then (let SliceStopBefore = min ((SliceStart + SliceCount) mod 2 ^ 64) Count in
            if SliceStart < SliceStopBefore
            then Reset_loop Count Partitions SliceCount (LaneIndex + 1) SliceStopBefore
                   (Lanes @ [\<lparr>Start = SliceStart, StopBefore = SliceStopBefore\<rparr>])
            else Lanes)
      else Lanes)"
  by pat_completeness auto
termination
  by (relation "measure (\<lambda>(Count, Partitions, SliceCount, LaneIndex, SliceStart, Lanes). Partitions - LaneIndex)") auto

declare Reset_loop.simps [simp del]

text \<open>
  \<^verbatim>\<open>Lanes.reserve(Partitions)\<close> throws \<^verbatim>\<open>std::length_error\<close> when \<open>Partitions\<close> exceeds the
  vector's \<^verbatim>\<open>max_size()\<close>, and \<^verbatim>\<open>std::bad_alloc\<close> when the storage cannot be allocated. Both
  limits belong to the platform and to the moment of the call, so they are parameters of
  the model: \<open>MaxSize\<close> is the \<^verbatim>\<open>max_size()\<close> of \<^verbatim>\<open>std::vector<Slice>\<close>, \<open>Available\<close> the
  largest capacity the vector can be given at this call.
\<close>

record vector_limits =
  MaxSize :: nat
  Available :: nat

datatype Reset_error = DivisionByZero | LengthError | BadAlloc

text \<open>
  \<^verbatim>\<open>Reset(Count, Partitions)\<close>, in the order of the source. \<open>Count + Partitions - 1\<close> is
  computed in \<^verbatim>\<open>size_t\<close>, that is modulo \<open>2 ^ 64\<close>, and the division by \<open>Partitions = 0\<close>
  is undefined behaviour (\<open>DivisionByZero\<close>). Then the lanes are cleared and
  \<^verbatim>\<open>reserve(Partitions)\<close> is called, which may throw. After a successful \<^verbatim>\<open>reserve\<close> the
  loop appends at most \<open>Partitions\<close> lanes, so \<^verbatim>\<open>emplace_back\<close> never allocates.
\<close>

definition Reset :: "vector_limits \<Rightarrow> nat \<Rightarrow> nat \<Rightarrow> Reset_error + SequenceGenerator" where
  "Reset lim Count Partitions =
     (if Partitions = 0 then Inl DivisionByZero
      else (let SliceCount = ((Count + Partitions - 1) mod 2 ^ 64) div Partitions in
            if MaxSize lim < Partitions then Inl LengthError
            else if Available lim < Partitions then Inl BadAlloc
            else Inr \<lparr>sg_Lanes = Reset_loop Count Partitions SliceCount 0 0 [], sg_Progress = 0\<rparr>))"

text \<open>
  The limits used in the examples: the \<^verbatim>\<open>max_size()\<close> of a vector of 16-byte elements whose
  size in bytes is at most \<open>2 ^ 63 - 1\<close>, and room for \<open>2 ^ 30\<close> slices.
\<close>

definition example_limits :: vector_limits where
  "example_limits = \<lparr>MaxSize = (2 ^ 63 - 1) div 16, Available = 2 ^ 30\<rparr>"

text \<open>\<^verbatim>\<open>Advance(OutStart, OutStopBefore)\<close>: the returned flag and the two out-parameters.\<close>

definition SequenceGenerator_Advance :: "SequenceGenerator \<Rightarrow> (bool \<times> nat \<times> nat) \<times> SequenceGenerator" where
  "SequenceGenerator_Advance sg =
     (let LaneIndex = sg_Progress sg;
          sg' = sg\<lparr>sg_Progress := (sg_Progress sg + 1) mod 2 ^ 64\<rparr>
      in if LaneIndex < length (sg_Lanes sg)
         then ((True, Start (sg_Lanes sg ! LaneIndex), StopBefore (sg_Lanes sg ! LaneIndex)), sg')
         else ((False, 0, 0), sg'))"

text \<open>The outputs of \<open>n\<close> successive calls of \<^verbatim>\<open>Advance\<close>.\<close>

fun Advance_calls :: "nat \<Rightarrow> SequenceGenerator \<Rightarrow> (bool \<times> nat \<times> nat) list" where
  "Advance_calls 0 sg = []"
| "Advance_calls (Suc n) sg =
     (case SequenceGenerator_Advance sg of (out, sg') \<Rightarrow> out # Advance_calls n sg')"

text \<open>
  The indices of a lane, and what the partition of \<open>[0, Count)\<close> into lanes means: the
  lanes, read in order, enumerate \<open>0, 1, \<dots>, Count - 1\<close> (contiguous, disjoint, without gaps),
  and no lane is empty.
\<close>

definition slice_indices :: "Slice \<Rightarrow> nat list" where
  "slice_indices l = [Start l ..< StopBefore l]"

definition lanes_partition :: "Slice list \<Rightarrow> nat \<Rightarrow> bool" where
  "lanes_partition lanes Count =
     (concat (map slice_indices lanes) = [0 ..< Count] \<and> list_all (\<lambda>l. Start l < StopBefore l) lanes)"



section \<open>ParallelAccumulator (parallel\_task.h)\<close>

text \<open>
  One buffer per lane and the atomic cursor \<^verbatim>\<open>Progress\<close>.
\<close>

record 'a ParallelAccumulator =
  pa_Lanes :: "'a list list"
  pa_Progress :: nat

text \<open>\<^verbatim>\<open>Join(Merged)\<close> appends every lane, in lane order, to \<^verbatim>\<open>Merged\<close>.\<close>

definition Join :: "'a ParallelAccumulator \<Rightarrow> 'a list \<Rightarrow> 'a list" where
  "Join pa Merged = Merged @ concat (pa_Lanes pa)"

text \<open>
  \<^verbatim>\<open>bool Advance(ContainerT& OutBatch, size_t OutBatchStart)\<close>. \<^verbatim>\<open>OutBatch\<close> is a reference
  to the caller's vector, \<^verbatim>\<open>OutBatchStart\<close> is passed by value: the function assigns to its
  own copy. The result records the returned flag, the caller's two variables after the call,
  and the final value of the function's local copy, which no caller can read.
  \<^verbatim>\<open>std::move\<close> leaves the claimed lane empty, and the sum over the prior lanes is taken
  after the move, over the lanes as they are then.
\<close>

record 'a advance_result =
  Returned :: bool
  CallerBatch :: "'a list"
  CallerBatchStart :: nat
  LocalBatchStart :: nat

function sum_prior_sizes :: "'a list list \<Rightarrow> nat \<Rightarrow> nat \<Rightarrow> nat \<Rightarrow> nat" where
  "sum_prior_sizes Lanes LaneIndex PriorIndex OutBatchStart =
     (if PriorIndex < LaneIndex
      then sum_prior_sizes Lanes LaneIndex (PriorIndex + 1)
             ((OutBatchStart + length (Lanes ! PriorIndex)) mod 2 ^ 64)
      else OutBatchStart)"
  by pat_completeness auto
termination
  by (relation "measure (\<lambda>(Lanes, LaneIndex, PriorIndex, OutBatchStart). LaneIndex - PriorIndex)") auto

declare sum_prior_sizes.simps [simp del]

definition ParallelAccumulator_Advance ::
  "'a ParallelAccumulator \<Rightarrow> 'a list \<Rightarrow> nat \<Rightarrow> 'a advance_result \<times> 'a ParallelAccumulator" where
  "ParallelAccumulator_Advance pa OutBatch OutBatchStart =
     (let LaneIndex = pa_Progress pa;
          pa1 = pa\<lparr>pa_Progress := (pa_Progress pa + 1) mod 2 ^ 64\<rparr>
      in if LaneIndex < length (pa_Lanes pa)
         then (let Moved = pa_Lanes pa ! LaneIndex;
                   Lanes' = (pa_Lanes pa)[LaneIndex := []];
                   Local = sum_prior_sizes Lanes' LaneIndex 0 0
               in (\<lparr>Returned = True, CallerBatch = Moved, CallerBatchStart = OutBatchStart,
                    LocalBatchStart = Local\<rparr>,
                   pa1\<lparr>pa_Lanes := Lanes'\<rparr>))
         else (\<lparr>Returned = False, CallerBatch = OutBatch, CallerBatchStart = OutBatchStart,
                LocalBatchStart = OutBatchStart\<rparr>, pa1))"

text \<open>
  The drain loop of a caller (\<^verbatim>\<open>while (Domain->Advance(Batch, BatchStart))\<close> with
  \<^verbatim>\<open>BatchStart\<close> initialised to 0): the batch and the start the caller holds after each
  successful call, in call order, for at most \<open>n\<close> calls.
\<close>

fun drain_calls ::
  "nat \<Rightarrow> 'a ParallelAccumulator \<Rightarrow> 'a list \<Rightarrow> nat \<Rightarrow> ('a list \<times> nat) list" where
  "drain_calls 0 pa Batch BatchStart = []"
| "drain_calls (Suc n) pa Batch BatchStart =
     (case ParallelAccumulator_Advance pa Batch BatchStart of
        (r, pa') \<Rightarrow>
          if Returned r
          then (CallerBatch r, CallerBatchStart r) # drain_calls n pa' (CallerBatch r) (CallerBatchStart r)
          else [])"

section \<open>Task chains (parallel\_task.h)\<close>

text \<open>
  Chain nodes live on the heap and refer to each other by pointer. The heap maps addresses
  to nodes; \<^verbatim>\<open>std::unique_ptr<IntermediaryT>\<close> is an optional payload. The scheduler is not
  part of this development: \<^verbatim>\<open>Scheduler::EnqueueParallel\<close> is recorded by appending the task
  to \<open>ParallelQueue\<close>.
\<close>

type_synonym ptr = nat

record 'i ParallelTaskChain =
  NextTask :: "ptr option"
  IntermediaryData :: "'i option"

record 'i chain_state =
  Nodes :: "ptr \<Rightarrow> 'i ParallelTaskChain option"
  ParallelQueue :: "ptr list"

text \<open>
  The constructors of \<^verbatim>\<open>ParallelDomainTaskChain\<close>: a node at address \<open>p\<close> with no successor,
  holding the initial payload swapped in from the caller, or none.
\<close>

definition new_ParallelTaskChain :: "ptr \<Rightarrow> 'i option \<Rightarrow> 'i chain_state \<Rightarrow> 'i chain_state" where
  "new_ParallelTaskChain p InitialIntermediaryData s =
     s\<lparr>Nodes := (Nodes s)(p \<mapsto> \<lparr>NextTask = None, IntermediaryData = InitialIntermediaryData\<rparr>)\<rparr>"

text \<open>Assignment to a field of the node at an address.\<close>

definition upd_node ::
  "ptr \<Rightarrow> ('i ParallelTaskChain \<Rightarrow> 'i ParallelTaskChain) \<Rightarrow>
   (ptr \<Rightarrow> 'i ParallelTaskChain option) \<Rightarrow> (ptr \<Rightarrow> 'i ParallelTaskChain option)" where
  "upd_node p f h = (case h p of None \<Rightarrow> h | Some n \<Rightarrow> h(p \<mapsto> f n))"

text \<open>
  \<^verbatim>\<open>BatonPass()\<close>: with a successor, \<^verbatim>\<open>std::swap\<close> exchanges the two payload slots, the
  successor is enqueued and the link is cleared; without one nothing happens. Following a
  pointer to a node that does not exist is undefined behaviour (\<open>None\<close>).
\<close>

definition BatonPass :: "ptr \<Rightarrow> 'i chain_state \<Rightarrow> 'i chain_state option" where
  "BatonPass this s =
     (case Nodes s this of
        None \<Rightarrow> None
      | Some n \<Rightarrow>
          (case NextTask n of
             None \<Rightarrow> Some s
           | Some nx \<Rightarrow>
               (case Nodes s nx of
                  None \<Rightarrow> None
                | Some m \<Rightarrow>
                    (let h1 = upd_node nx (\<lambda>x. x\<lparr>IntermediaryData := IntermediaryData n\<rparr>) (Nodes s);
                         h2 = upd_node this (\<lambda>x. x\<lparr>IntermediaryData := IntermediaryData m\<rparr>) h1;
                         enqueued = ParallelQueue s @ [nx];
                         h3 = upd_node this (\<lambda>x. x\<lparr>NextTask := None\<rparr>) h2
                     in Some \<lparr>Nodes = h3, ParallelQueue = enqueued\<rparr>))))"

record ParallelTaskBuilder =
  Head :: "ptr option"
  Tail :: "ptr option"

text \<open>
  \<^verbatim>\<open>ParallelTaskBuilder::Link\<close>: the first node linked becomes head and tail, a later one
  is hung behind the tail and becomes the tail.
\<close>

definition Link ::
  "ptr \<Rightarrow> ParallelTaskBuilder \<times> 'i chain_state \<Rightarrow> (ParallelTaskBuilder \<times> 'i chain_state) option" where
  "Link Next bs =
     (case bs of (b, s) \<Rightarrow>
        (case Head b of
           None \<Rightarrow> Some (b\<lparr>Head := Some Next, Tail := Some Next\<rparr>, s)
         | Some h \<Rightarrow>
             (case Tail b of
                None \<Rightarrow> None
              | Some t \<Rightarrow>
                  (case Nodes s t of
                     None \<Rightarrow> None
                   | Some n \<Rightarrow>
                       Some (b\<lparr>Tail := Some Next\<rparr>,
                             s\<lparr>Nodes := (Nodes s)(t \<mapsto> n\<lparr>NextTask := Some Next\<rparr>)\<rparr>)))))"

text \<open>
  The two conditions of the data model, "this node holds the payload" and "its successor
  holds the payload", and the statement that exactly one of them is true.
\<close>

definition holds_payload :: "'i chain_state \<Rightarrow> ptr \<Rightarrow> bool" where
  "holds_payload s p = (case Nodes s p of None \<Rightarrow> False | Some n \<Rightarrow> IntermediaryData n \<noteq> None)"

definition successor_holds_payload :: "'i chain_state \<Rightarrow> ptr \<Rightarrow> bool" where
  "successor_holds_payload s p =
     (case Nodes s p of
        None \<Rightarrow> False
      | Some n \<Rightarrow> (case NextTask n of None \<Rightarrow> False | Some q \<Rightarrow> holds_payload s q))"

definition exactly_one_holds :: "'i chain_state \<Rightarrow> ptr \<Rightarrow> bool" where
  "exactly_one_holds s p = (holds_payload s p \<noteq> successor_holds_payload s p)"

text \<open>
  \<open>is_chain s ps\<close>: the nodes \<open>ps\<close> are linked in this order by \<^verbatim>\<open>NextTask\<close> and the last one
  has no successor. \<open>payload_at_head\<close>: the first node holds a payload and no other does.
\<close>

fun is_chain :: "'i chain_state \<Rightarrow> ptr list \<Rightarrow> bool" where
  "is_chain s [] = False"
| "is_chain s [p] = (case Nodes s p of None \<Rightarrow> False | Some n \<Rightarrow> NextTask n = None)"
| "is_chain s (p # q # ps) =
     ((case Nodes s p of None \<Rightarrow> False | Some n \<Rightarrow> NextTask n = Some q) \<and> is_chain s (q # ps))"

definition payload_at_head :: "'i chain_state \<Rightarrow> ptr list \<Rightarrow> bool" where
  "payload_at_head s ps =
     (case ps of [] \<Rightarrow> False
      | p # qs \<Rightarrow> holds_payload s p \<and> list_all (\<lambda>q. \<not> holds_payload s q) qs)"

text \<open>
  A pipeline of three stages built the way the builder is used: the first stage is
  constructed with the payload (here the number 7), the other two without, and the three
  are linked in order. \<open>passed_state\<close> is the heap after the first stage has passed the baton.
\<close>

definition empty_chain_state :: "'i chain_state" where
  "empty_chain_state = \<lparr>Nodes = (\<lambda>p. None), ParallelQueue = []\<rparr>"

definition three_stage_chain :: "(ParallelTaskBuilder \<times> nat chain_state) option" where
  "three_stage_chain =
     Option.bind (Option.bind (Link 0 (\<lparr>Head = None, Tail = None\<rparr>,
        new_ParallelTaskChain 2 None (new_ParallelTaskChain 1 None
          (new_ParallelTaskChain 0 (Some 7) empty_chain_state)))) (Link 1)) (Link 2)"

definition three_stage_state :: "nat chain_state" where
  "three_stage_state =
     \<lparr>Nodes = (\<lambda>p. None)(0 \<mapsto> \<lparr>NextTask = Some 1, IntermediaryData = Some 7\<rparr>,
         1 \<mapsto> \<lparr>NextTask = Some 2, IntermediaryData = None\<rparr>,
         2 \<mapsto> \<lparr>NextTask = None, IntermediaryData = None\<rparr>), ParallelQueue = []\<rparr>"

definition passed_state :: "nat chain_state" where
  "passed_state =
     \<lparr>Nodes = (\<lambda>p. None)(0 \<mapsto> \<lparr>NextTask = None, IntermediaryData = None\<rparr>,
         1 \<mapsto> \<lparr>NextTask = Some 2, IntermediaryData = Some 7\<rparr>,
         2 \<mapsto> \<lparr>NextTask = None, IntermediaryData = None\<rparr>), ParallelQueue = [1]\<rparr>"

section \<open>Instance colors (sdf\_model.h, sdf\_rendering.cpp)\<close>

text \<open>
  The part of \<^verbatim>\<open>SDFModel\<close> that \<^verbatim>\<open>UpdateColors\<close> touches: the camera origin, the
  instance's flat color array \<^verbatim>\<open>Colors\<close> (here \<open>Model_Colors\<close>, since the coloring group
  has a field of the same name), the coloring groups, and the \<^verbatim>\<open>Vertices\<close> vectors of the
  Drawable's material slots, which the groups reach through their \<^verbatim>\<open>VertexGroup\<close> pointer.
  Colors and vectors are abstract.
\<close>

record ('c, 'v) SDFModel =
  AtomicCameraOrigin :: 'v
  Model_Colors :: "'c list"
  ColoringGroups :: "'c InstanceColoringGroup list"
  MaterialSlots :: "nat list list"

text \<open>
  The inner loop over \<^verbatim>\<open>RelativeIndex\<close>. Reading \<^verbatim>\<open>Vertices\<close>, \<^verbatim>\<open>NewColors\<close> or writing
  \<^verbatim>\<open>Colors\<close> out of range is undefined behaviour (\<open>None\<close>); the index sum is a
  \<^verbatim>\<open>size_t\<close> sum.
\<close>

function write_group_colors ::
  "nat list \<Rightarrow> 'c InstanceColoringGroup \<Rightarrow> 'c list \<Rightarrow> nat \<Rightarrow> 'c list \<Rightarrow> 'c list option" where
  "write_group_colors Vertices Batch NewColors RelativeIndex Cs =
     (if RelativeIndex < IndexRange Batch
      then (let pos = (IndexStart Batch + RelativeIndex) mod 2 ^ 64 in
            if pos < length Vertices \<and> RelativeIndex < length NewColors
            then (let VertexIndex = Vertices ! pos in
                  if VertexIndex < length Cs
                  then write_group_colors Vertices Batch NewColors (RelativeIndex + 1)
                         (Cs[VertexIndex := NewColors ! RelativeIndex])
                  else None)
            else None)
      else Some Cs)"
  by pat_completeness auto
termination
  by (relation "measure (\<lambda>(Vertices, Batch, NewColors, RelativeIndex, Cs). IndexRange Batch - RelativeIndex)")
    auto

declare write_group_colors.simps [simp del]

text \<open>
  The loop over the coloring groups: the pending buffer is swapped with an empty vector
  (under the group's lock), and written out when it was not empty. No other thread is
  taken to push colors while the call runs.
\<close>

fun update_groups ::
  "nat list list \<Rightarrow> 'c InstanceColoringGroup list \<Rightarrow> 'c list \<Rightarrow>
   ('c InstanceColoringGroup list \<times> 'c list) option" where
  "update_groups Slots [] Cs = Some ([], Cs)"
| "update_groups Slots (Batch # rest) Cs =
     (let NewColors = Colors Batch;
          Batch' = Batch\<lparr>Colors := []\<rparr>
      in if length NewColors > 0
         then (if VertexGroup Batch < length Slots
               then (case write_group_colors (Slots ! VertexGroup Batch) Batch NewColors 0 Cs of
                       None \<Rightarrow> None
                     | Some Cs' \<Rightarrow>
                         (case update_groups Slots rest Cs' of
                            None \<Rightarrow> None
                          | Some (gs, Cs'') \<Rightarrow> Some (Batch' # gs, Cs'')))
               else None)
         else (case update_groups Slots rest Cs of
                 None \<Rightarrow> None
               | Some (gs, Cs'') \<Rightarrow> Some (Batch' # gs, Cs'')))"

definition UpdateColors :: "('c, 'v) SDFModel \<Rightarrow> 'v \<Rightarrow> ('c, 'v) SDFModel option" where
  "UpdateColors m NewCameraOrigin =
     (case update_groups (MaterialSlots m) (ColoringGroups m) (Model_Colors m) of
        None \<Rightarrow> None
      | Some (gs, Cs) \<Rightarrow>
          Some (m\<lparr>AtomicCameraOrigin := NewCameraOrigin, ColoringGroups := gs, Model_Colors := Cs\<rparr>))"

text \<open>
  The writes the specification names: for a group with a non-empty pending buffer,
  pending color \<open>i\<close> goes to index \<open>Vertices[IndexStart + i]\<close>, for \<open>i\<close> in
  \<open>[0, IndexRange)\<close>; groups in order. \<open>apply_writes\<close> performs a list of writes in order.
\<close>

definition group_writes :: "nat list list \<Rightarrow> 'c InstanceColoringGroup \<Rightarrow> (nat \<times> 'c) list" where
  "group_writes Slots g =
     (if Colors g = [] then []
      else map (\<lambda>i. ((Slots ! VertexGroup g) ! (IndexStart g + i), Colors g ! i)) [0 ..< IndexRange g])"

definition all_writes :: "nat list list \<Rightarrow> 'c InstanceColoringGroup list \<Rightarrow> (nat \<times> 'c) list" where
  "all_writes Slots gs = concat (map (group_writes Slots) gs)"

text \<open>
  The accesses of a group stay in range: its slot exists, its chunk lies inside the slot's
  \<^verbatim>\<open>Vertices\<close>, a non-empty pending buffer has a color for every vertex of the chunk, and
  every vertex index of the chunk is an index of the color array of size \<open>n\<close>.
\<close>

definition group_in_bounds :: "nat list list \<Rightarrow> nat \<Rightarrow> 'c InstanceColoringGroup \<Rightarrow> bool" where
  "group_in_bounds Slots n g =
     (Colors g = [] \<or>
      (VertexGroup g < length Slots
       \<and> IndexStart g + IndexRange g \<le> length (Slots ! VertexGroup g)
       \<and> IndexStart g + IndexRange g \<le> 2 ^ 64
       \<and> IndexRange g \<le> length (Colors g)
       \<and> list_all (\<lambda>i. (Slots ! VertexGroup g) ! (IndexStart g + i) < n) [0 ..< IndexRange g]))"

definition apply_writes :: "(nat \<times> 'c) list \<Rightarrow> 'c list \<Rightarrow> 'c list" where
  "apply_writes ws Cs = fold (\<lambda>w cs. cs[fst w := snd w]) ws Cs"

text \<open>An instance with four vertices in one material slot and two coloring groups.\<close>

definition example_model :: "(nat, unit) SDFModel" where
  "example_model =
     \<lparr>AtomicCameraOrigin = (), Model_Colors = [0, 1, 2, 3],
      ColoringGroups =
        [\<lparr>VertexGroup = 0, IndexStart = 0, IndexRange = 2, Colors = [10, 11], LastRepaint = 0\<rparr>,
         \<lparr>VertexGroup = 0, IndexStart = 2, IndexRange = 2, Colors = [], LastRepaint = 0\<rparr>],
      MaterialSlots = [[2, 0, 3, 1]]\<rparr>"

section \<open>Drawable cache (sdf\_model.cpp)\<close>

text \<open>
  \<^verbatim>\<open>DrawableCache\<close> is a vector of pairs of a key (the evaluator's address as
  \<^verbatim>\<open>size_t\<close>) and a weak reference to a Drawable. Drawables are numbered in the order they
  are created; \<open>StrongCount\<close> is the number of \<^verbatim>\<open>shared_ptr\<close> owners of each (0: expired or
  not yet created), \<open>NextDrawable\<close> the number the next \<^verbatim>\<open>make_shared<Drawable>\<close> gets.
  \<open>Populated\<close> logs the calls of \<^verbatim>\<open>Sodapop::Populate\<close> by their Drawable, and \<open>DeleteQueue\<close>
  counts the \<^verbatim>\<open>PruneStaleDrawableFromCache\<close> finalizers that Drawable destructors have
  enqueued with \<^verbatim>\<open>Scheduler::EnqueueDelete\<close>.
\<close>

record cache_state =
  DrawableCache :: "(nat \<times> nat) list"
  StrongCount :: "nat \<Rightarrow> nat"
  NextDrawable :: nat
  Populated :: "nat list"
  DeleteQueue :: nat

definition initial_cache :: cache_state where
  "initial_cache =
     \<lparr>DrawableCache = [], StrongCount = (\<lambda>d. 0), NextDrawable = 0, Populated = [], DeleteQueue = 0\<rparr>"

text \<open>
  The lookup loop of the constructor: at an entry with the key, \<^verbatim>\<open>lock()\<close> the weak reference
  and stop when it yields a Drawable; an expired entry is passed over.
\<close>

fun find_live :: "(nat \<times> nat) list \<Rightarrow> nat \<Rightarrow> (nat \<Rightarrow> nat) \<Rightarrow> nat option" where
  "find_live [] Key sc = None"
| "find_live (Entry # rest) Key sc =
     (if fst Entry = Key
      then (if 0 < sc (snd Entry) then Some (snd Entry) else find_live rest Key sc)
      else find_live rest Key sc)"

text \<open>
  The constructor body under \<^verbatim>\<open>DrawableCacheCS\<close>, as one atomic step: the new instance's
  \<^verbatim>\<open>Painter\<close> and the state. A hit adds an owner; a miss creates the Drawable (one owner),
  appends the cache entry and calls \<^verbatim>\<open>Sodapop::Populate\<close>.
\<close>

definition SDFModel_new :: "nat \<Rightarrow> cache_state \<Rightarrow> nat \<times> cache_state" where
  "SDFModel_new Key s =
     (case find_live (DrawableCache s) Key (StrongCount s) of
        Some Painter \<Rightarrow>
          (Painter, s\<lparr>StrongCount := (StrongCount s)(Painter := StrongCount s Painter + 1)\<rparr>)
      | None \<Rightarrow>
          (let Painter = NextDrawable s in
           (Painter,
            s\<lparr>DrawableCache := DrawableCache s @ [(Key, Painter)],
              StrongCount := (StrongCount s)(Painter := 1),
              NextDrawable := Painter + 1,
              Populated := Populated s @ [Painter]\<rparr>)))"

text \<open>
  Copying and destroying a \<^verbatim>\<open>DrawableShared\<close> (an instance is destroyed with
  \<^verbatim>\<open>Painter.reset()\<close>; the build pipeline and \<^verbatim>\<open>MeshReady\<close> hold copies for a while).
  Only an owner can copy. The last release runs \<^verbatim>\<open>~Drawable\<close>, which enqueues the pruning
  finalizer.
\<close>

definition acquire :: "nat \<Rightarrow> cache_state \<Rightarrow> cache_state" where
  "acquire d s =
     (if 0 < StrongCount s d then s\<lparr>StrongCount := (StrongCount s)(d := StrongCount s d + 1)\<rparr> else s)"

definition release :: "nat \<Rightarrow> cache_state \<Rightarrow> cache_state" where
  "release d s =
     (if StrongCount s d = 0 then s
      else if StrongCount s d = 1
      then s\<lparr>StrongCount := (StrongCount s)(d := 0), DeleteQueue := DeleteQueue s + 1\<rparr>
      else s\<lparr>StrongCount := (StrongCount s)(d := StrongCount s d - 1)\<rparr>)"

text \<open>\<^verbatim>\<open>PruneStaleDrawableFromCache\<close> erases the first expired entry and stops.\<close>

fun erase_first_expired :: "(nat \<times> nat) list \<Rightarrow> (nat \<Rightarrow> nat) \<Rightarrow> (nat \<times> nat) list" where
  "erase_first_expired [] sc = []"
| "erase_first_expired (Entry # rest) sc =
     (if sc (snd Entry) = 0 then rest else Entry # erase_first_expired rest sc)"

definition PruneStaleDrawableFromCache :: "cache_state \<Rightarrow> cache_state" where
  "PruneStaleDrawableFromCache s =
     s\<lparr>DrawableCache := erase_first_expired (DrawableCache s) (StrongCount s)\<rparr>"

text \<open>
  The program as a sequence of atomic events on the cache: a construction with a key, a
  copy or a release of a strong reference, and the scheduler running one pending finalizer.
\<close>

datatype cache_event = EvConstruct nat | EvAcquire nat | EvRelease nat | EvRunDelete

fun cache_step :: "cache_state \<Rightarrow> cache_event \<Rightarrow> cache_state" where
  "cache_step s (EvConstruct Key) = snd (SDFModel_new Key s)"
| "cache_step s (EvAcquire d) = acquire d s"
| "cache_step s (EvRelease d) = release d s"
| "cache_step s EvRunDelete =
     (if 0 < DeleteQueue s
      then (PruneStaleDrawableFromCache s)\<lparr>DeleteQueue := DeleteQueue s - 1\<rparr>
      else s)"

definition cache_run :: "cache_state \<Rightarrow> cache_event list \<Rightarrow> cache_state" where
  "cache_run s es = foldl cache_step s es"

text \<open>
  "At most one live Drawable per identity": the keys of the entries that are not expired
  are pairwise different. \<open>cache_inv\<close> adds what the proof needs about numbering.
\<close>

definition live_entries :: "cache_state \<Rightarrow> (nat \<times> nat) list" where
  "live_entries s = filter (\<lambda>Entry. 0 < StrongCount s (snd Entry)) (DrawableCache s)"

definition one_live_per_key :: "cache_state \<Rightarrow> bool" where
  "one_live_per_key s = distinct (map fst (live_entries s))"

definition cache_inv :: "cache_state \<Rightarrow> bool" where
  "cache_inv s =
     (distinct (map snd (DrawableCache s))
      \<and> (\<forall>Entry \<in> set (DrawableCache s). snd Entry < NextDrawable s)
      \<and> (\<forall>d. NextDrawable s \<le> d \<longrightarrow> StrongCount s d = 0)
      \<and> Populated s = [0 ..< NextDrawable s]
      \<and> one_live_per_key s)"

section \<open>Parallel domain stages (parallel\_task.h)\<close>

text \<open>
  \<^verbatim>\<open>ParallelDomainTaskChain::RunInner\<close> is run by any number of callers at once. Each caller
  first passes the setup section (under \<^verbatim>\<open>IterationCS\<close>: whoever finds \<^verbatim>\<open>SetupPending\<close> clears
  it, primes the cursors and calls \<^verbatim>\<open>Setup\<close>), then claims until a claim fails and returns.
  A claim is atomic (a \<^verbatim>\<open>fetch_add\<close> or a section under the mutex). The state of a stage is
  the setup flag, the number of \<^verbatim>\<open>Setup\<close> calls, the domain with its cursor, the log of the
  \<^verbatim>\<open>Loop\<close> calls (the element claimed, by its place in the domain, and the index argument)
  and where each caller stands. A \<^verbatim>\<open>Loop\<close> call is logged when its element is claimed;
  \<^verbatim>\<open>Loop\<close> is taken not to change the domain.
\<close>

datatype run_pc = PcSetup | PcLoop | PcDone

record ('c, 'r) stage_state =
  SetupPending :: bool
  SetupCalled :: nat
  Cursor :: 'c
  LoopCalls :: "('r \<times> int) list"
  Threads :: "run_pc list"

definition initial_stage :: "nat \<Rightarrow> 'c \<Rightarrow> ('c, 'r) stage_state" where
  "initial_stage T c =
     \<lparr>SetupPending = True, SetupCalled = 0, Cursor = c, LoopCalls = [], Threads = replicate T PcSetup\<rparr>"

text \<open>
  One atomic action of caller \<open>t\<close>. \<open>prime\<close> is what the setup section does to the cursor,
  \<open>claim\<close> the claim of the domain kind: the \<^verbatim>\<open>Loop\<close> calls it leads to, or \<open>None\<close> when it
  fails and the caller leaves the loop.
\<close>

definition RunInner_step ::
  "('c \<Rightarrow> 'c) \<Rightarrow> ('c \<Rightarrow> ('r \<times> int) list option \<times> 'c) \<Rightarrow>
   ('c, 'r) stage_state \<Rightarrow> nat \<Rightarrow> ('c, 'r) stage_state" where
  "RunInner_step prime claim s t =
     (if t < length (Threads s)
      then (case Threads s ! t of
              PcSetup \<Rightarrow>
                (if SetupPending s
                 then s\<lparr>SetupPending := False, SetupCalled := SetupCalled s + 1,
                        Cursor := prime (Cursor s), Threads := (Threads s)[t := PcLoop]\<rparr>
                 else s\<lparr>Threads := (Threads s)[t := PcLoop]\<rparr>)
            | PcLoop \<Rightarrow>
                (case claim (Cursor s) of
                   (Some calls, c') \<Rightarrow> s\<lparr>Cursor := c', LoopCalls := LoopCalls s @ calls\<rparr>
                 | (None, c') \<Rightarrow> s\<lparr>Cursor := c', Threads := (Threads s)[t := PcDone]\<rparr>)
            | PcDone \<Rightarrow> s)
      else s)"

text \<open>A schedule names the caller that acts next; any interleaving is some schedule.\<close>

definition run_schedule ::
  "('c \<Rightarrow> 'c) \<Rightarrow> ('c \<Rightarrow> ('r \<times> int) list option \<times> 'c) \<Rightarrow>
   ('c, 'r) stage_state \<Rightarrow> nat list \<Rightarrow> ('c, 'r) stage_state" where
  "run_schedule prime claim s sched = foldl (RunInner_step prime claim) s sched"

definition all_done :: "('c, 'r) stage_state \<Rightarrow> bool" where
  "all_done s = list_all (\<lambda>pc. pc = PcDone) (Threads s)"

text \<open>
  The cursor after \<open>n\<close> claims, and the statement that from a cursor the first claims
  succeed with the results \<open>rs\<close>, in this order, and every later claim up to the
  \<open>limit\<close>-th fails. \<open>stage_inv\<close> is the invariant of a run: after \<open>n\<close> claims the log holds the
  first \<open>n\<close> results, as many callers have returned as claims have failed, and a caller
  still in its loop has acted at most once more than claims have succeeded.
\<close>

definition nth_cursor :: "('c \<Rightarrow> ('r \<times> int) list option \<times> 'c) \<Rightarrow> 'c \<Rightarrow> nat \<Rightarrow> 'c" where
  "nth_cursor claim c n = ((\<lambda>x. snd (claim x)) ^^ n) c"

definition exhausts ::
  "('c \<Rightarrow> ('r \<times> int) list option \<times> 'c) \<Rightarrow> 'c \<Rightarrow> ('r \<times> int) list list \<Rightarrow> nat \<Rightarrow> bool" where
  "exhausts claim c rs limit =
     (\<forall>j < limit. fst (claim (nth_cursor claim c j)) = (if j < length rs then Some (rs ! j) else None))"

definition running_at ::
  "('c \<Rightarrow> 'c) \<Rightarrow> ('c \<Rightarrow> ('r \<times> int) list option \<times> 'c) \<Rightarrow> 'c \<Rightarrow> ('r \<times> int) list list \<Rightarrow>
   nat \<Rightarrow> nat list \<Rightarrow> ('c, 'r) stage_state \<Rightarrow> nat \<Rightarrow> bool" where
  "running_at prime claim c rs T sched s n =
     (Cursor s = nth_cursor claim (prime c) n \<and> LoopCalls s = concat (take n rs)
      \<and> count_list (Threads s) PcDone = n - min n (length rs)
      \<and> (\<forall>t < T. Threads s ! t = PcLoop \<longrightarrow> count_list sched t \<le> 1 + min n (length rs)))"

definition stage_inv ::
  "('c \<Rightarrow> 'c) \<Rightarrow> ('c \<Rightarrow> ('r \<times> int) list option \<times> 'c) \<Rightarrow> 'c \<Rightarrow> ('r \<times> int) list list \<Rightarrow>
   nat \<Rightarrow> nat list \<Rightarrow> ('c, 'r) stage_state \<Rightarrow> bool" where
  "stage_inv prime claim c rs T sched s =
     (length (Threads s) = T \<and>
      (if SetupPending s
       then Threads s = replicate T PcSetup \<and> LoopCalls s = [] \<and> Cursor s = c \<and> SetupCalled s = 0
       else SetupCalled s = 1 \<and> (\<exists>n. running_at prime claim c rs T sched s n))
      \<and> (\<forall>t < T. Threads s ! t = PcSetup \<longrightarrow> count_list sched t = 0))"

subsection \<open>The five domain kinds\<close>

text \<open>
  \<^verbatim>\<open>int\<close> is a 32-bit two's complement integer, modelled as an \<open>int\<close> in range;
  \<open>wrap_int32\<close> is the conversion to it (what \<^verbatim>\<open>std::atomic_int::fetch_add\<close> and the
  narrowing of a \<^verbatim>\<open>size_t\<close> argument do), \<open>to_size_t\<close> the conversion of an \<^verbatim>\<open>int\<close> to
  \<^verbatim>\<open>size_t\<close> in the comparison \<^verbatim>\<open>ClaimedIndex < Range\<close> and in \<^verbatim>\<open>(*Domain)[ClaimedIndex]\<close>.
\<close>

definition wrap_int32 :: "int \<Rightarrow> int" where
  "wrap_int32 i = (i + 2 ^ 31) mod 2 ^ 32 - 2 ^ 31"

definition to_size_t :: "int \<Rightarrow> nat" where
  "to_size_t i = nat (i mod 2 ^ 64)"

text \<open>Random-access sequence: the atomic counter \<^verbatim>\<open>NextIndex\<close>, starting at 0.\<close>

record 'e random_access_cursor =
  ra_Domain :: "'e list"
  NextIndex :: int

definition prime_random_access :: "'e random_access_cursor \<Rightarrow> 'e random_access_cursor" where
  "prime_random_access c = c"

definition claim_random_access ::
  "'e random_access_cursor \<Rightarrow> (nat \<times> int) list option \<times> 'e random_access_cursor" where
  "claim_random_access c =
     (let ClaimedIndex = NextIndex c;
          c' = c\<lparr>NextIndex := wrap_int32 (NextIndex c + 1)\<rparr>;
          Range = length (ra_Domain c)
      in if to_size_t ClaimedIndex < Range
         then (Some [(to_size_t ClaimedIndex, ClaimedIndex)], c')
         else (None, c'))"

text \<open>
  Forward-only sequence: iterators are places in the sequence; the setup section sets
  \<^verbatim>\<open>NextIter\<close> to \<^verbatim>\<open>begin()\<close> and \<^verbatim>\<open>StopIter\<close> to \<^verbatim>\<open>end()\<close>, and the index argument is -1.
\<close>

record 'e forward_cursor =
  fw_Domain :: "'e list"
  NextIter :: nat
  StopIter :: nat

definition prime_forward :: "'e forward_cursor \<Rightarrow> 'e forward_cursor" where
  "prime_forward c = c\<lparr>NextIter := 0, StopIter := length (fw_Domain c)\<rparr>"

definition claim_forward :: "'e forward_cursor \<Rightarrow> (nat \<times> int) list option \<times> 'e forward_cursor" where
  "claim_forward c =
     (if NextIter c \<noteq> StopIter c
      then (Some [(NextIter c, - 1)], c\<lparr>NextIter := NextIter c + 1\<rparr>)
      else (None, c))"

text \<open>
  \<^verbatim>\<open>SequenceGenerator\<close>: a claim is \<^verbatim>\<open>Advance\<close>, followed by a \<^verbatim>\<open>Loop\<close> call for each index
  of the lane, the index passed both as element and, narrowed to \<^verbatim>\<open>int\<close>, as index.
\<close>

definition prime_generator :: "SequenceGenerator \<Rightarrow> SequenceGenerator" where
  "prime_generator sg = sg"

definition slice_calls :: "nat \<Rightarrow> nat \<Rightarrow> (nat \<times> int) list" where
  "slice_calls SliceStart SliceStopBefore =
     map (\<lambda>Index. (Index, wrap_int32 (int Index))) [SliceStart ..< SliceStopBefore]"

definition claim_generator :: "SequenceGenerator \<Rightarrow> (nat \<times> int) list option \<times> SequenceGenerator" where
  "claim_generator sg =
     (case SequenceGenerator_Advance sg of
        ((ok, SliceStart, SliceStopBefore), sg') \<Rightarrow>
          if ok then (Some (slice_calls SliceStart SliceStopBefore), sg') else (None, sg'))"

text \<open>
  \<^verbatim>\<open>ParallelAccumulator\<close>: a claim is \<^verbatim>\<open>Advance(Batch, BatchStart)\<close> on the caller's own
  \<^verbatim>\<open>Batch\<close> and \<^verbatim>\<open>BatchStart\<close>; a successful call overwrites \<^verbatim>\<open>Batch\<close>, and \<^verbatim>\<open>BatchStart\<close>
  stays at its initial 0 since it is passed by value. An element is named by its lane and
  its place in the lane; the index argument counts up from \<^verbatim>\<open>BatchStart\<close>.
\<close>

definition prime_accumulator :: "'e ParallelAccumulator \<Rightarrow> 'e ParallelAccumulator" where
  "prime_accumulator pa = pa"

definition batch_calls :: "nat \<Rightarrow> nat \<Rightarrow> nat \<Rightarrow> ((nat \<times> nat) \<times> int) list" where
  "batch_calls LaneIndex BatchStart BatchSize =
     map (\<lambda>i. ((LaneIndex, i), wrap_int32 (int ((BatchStart + i) mod 2 ^ 64)))) [0 ..< BatchSize]"

definition claim_accumulator ::
  "'e ParallelAccumulator \<Rightarrow> ((nat \<times> nat) \<times> int) list option \<times> 'e ParallelAccumulator" where
  "claim_accumulator pa =
     (case ParallelAccumulator_Advance pa [] 0 of
        (r, pa') \<Rightarrow>
          if Returned r
          then (Some (batch_calls (pa_Progress pa) (CallerBatchStart r) (length (CallerBatch r))), pa')
          else (None, pa'))"

text \<open>
  Octree leaves: the leaves are linked by their \<^verbatim>\<open>Next\<close> pointers (\<open>LeafNext\<close>, by address),
  starting at \<^verbatim>\<open>Domain->Next\<close>; the setup section sets \<^verbatim>\<open>NextLeaf\<close> to it. \<open>linked\<close> says that
  following the pointers from \<open>p\<close> visits exactly the leaves \<open>ps\<close> and then reaches null.
\<close>

record octree_cursor =
  LeafNext :: "nat \<Rightarrow> nat option"
  DomainRoot :: nat
  NextLeaf :: "nat option"

definition prime_octree :: "octree_cursor \<Rightarrow> octree_cursor" where
  "prime_octree c = c\<lparr>NextLeaf := LeafNext c (DomainRoot c)\<rparr>"

definition claim_octree :: "octree_cursor \<Rightarrow> (nat \<times> int) list option \<times> octree_cursor" where
  "claim_octree c =
     (case NextLeaf c of
        None \<Rightarrow> (None, c\<lparr>NextLeaf := None\<rparr>)
      | Some Leaf \<Rightarrow> (Some [(Leaf, - 1)], c\<lparr>NextLeaf := LeafNext c Leaf\<rparr>))"

fun linked :: "(nat \<Rightarrow> nat option) \<Rightarrow> nat option \<Rightarrow> nat list \<Rightarrow> bool" where
  "linked nx p [] = (p = None)"
| "linked nx p (q # qs) = (p = Some q \<and> linked nx (nx q) qs)"

text \<open>
  The five stages run by \<open>T\<close> callers under a schedule. \<open>runs_often T m sched\<close>: every caller
  is scheduled at least \<open>m + 2\<close> times (enough for its setup, \<open>m\<close> claims and one more).
\<close>

definition RunInner_random_access ::
  "nat \<Rightarrow> 'e random_access_cursor \<Rightarrow> nat list \<Rightarrow> ('e random_access_cursor, nat) stage_state" where
  "RunInner_random_access T c sched =
     run_schedule prime_random_access claim_random_access (initial_stage T c) sched"

definition RunInner_forward ::
  "nat \<Rightarrow> 'e forward_cursor \<Rightarrow> nat list \<Rightarrow> ('e forward_cursor, nat) stage_state" where
  "RunInner_forward T c sched = run_schedule prime_forward claim_forward (initial_stage T c) sched"

definition RunInner_generator ::
  "nat \<Rightarrow> SequenceGenerator \<Rightarrow> nat list \<Rightarrow> (SequenceGenerator, nat) stage_state" where
  "RunInner_generator T sg sched = run_schedule prime_generator claim_generator (initial_stage T sg) sched"

definition RunInner_accumulator ::
  "nat \<Rightarrow> 'e ParallelAccumulator \<Rightarrow> nat list \<Rightarrow> ('e ParallelAccumulator, nat \<times> nat) stage_state" where
  "RunInner_accumulator T pa sched =
     run_schedule prime_accumulator claim_accumulator (initial_stage T pa) sched"

definition RunInner_octree ::
  "nat \<Rightarrow> octree_cursor \<Rightarrow> nat list \<Rightarrow> (octree_cursor, nat) stage_state" where
  "RunInner_octree T c sched = run_schedule prime_octree claim_octree (initial_stage T c) sched"

definition runs_often :: "nat \<Rightarrow> nat \<Rightarrow> nat list \<Rightarrow> bool" where
  "runs_often T m sched = list_all (\<lambda>t. m + 2 \<le> count_list sched t) [0 ..< T]"

section \<open>Theorems\<close>

subsection \<open>Repaint fence\<close>

lemma repaint_frame_fence: "RepaintFence (repaint_frame s) = (RepaintFence s + 1) mod 2 ^ 64"
  by (simp add: repaint_frame_def PostPendingRepaintRequest_def FlagSceneRepaint_def)

lemma repaint_frames_Suc: "repaint_frames (Suc n) s = repaint_frame (repaint_frames n s)"
  by (simp add: repaint_frames_def)

lemma repaint_frames_fence:
  "RepaintFence s < 2 ^ 64 \<Longrightarrow> RepaintFence (repaint_frames n s) = (RepaintFence s + n) mod 2 ^ 64"
proof (induction n)
  case 0
  then show ?case by (simp add: repaint_frames_def)
next
  case (Suc n)
  then show ?case
    by (simp only: repaint_frames_Suc repaint_frame_fence) (simp add: mod_simps)
qed

lemma flags_requested: "0 < n \<Longrightarrow> (FlagSceneRepaint ^^ n) s = s\<lparr>RepaintRequested := True\<rparr>"
proof (induction n)
  case 0
  then show ?case by simp
next
  case (Suc n)
  then show ?case by (cases "n = 0") (simp_all add: FlagSceneRepaint_def)
qed

lemma post_after_flags:
  "0 < n \<Longrightarrow> RepaintFence (PostPendingRepaintRequest ((FlagSceneRepaint ^^ n) s)) = (RepaintFence s + 1) mod 2 ^ 64"
  by (simp add: flags_requested PostPendingRepaintRequest_def)

lemma post_twice: "PostPendingRepaintRequest (PostPendingRepaintRequest s) = PostPendingRepaintRequest s"
  by (simp add: PostPendingRepaintRequest_def)

lemma apply_repaint_op_fence_le:
  "RepaintFence (apply_repaint_op x s) \<le> RepaintFence s + (if x = OpPost then 1 else 0)"
  by (cases x) (auto simp: PostPendingRepaintRequest_def FlagSceneRepaint_def intro: order_trans [OF mod_less_eq_dividend])

lemma apply_repaint_op_mono:
  "RepaintFence s + (if x = OpPost then 1 else 0) < 2 ^ 64 \<Longrightarrow> RepaintFence s \<le> RepaintFence (apply_repaint_op x s)"
  by (cases x) (auto simp: PostPendingRepaintRequest_def FlagSceneRepaint_def)

lemma run_repaint_ops_bounds:
  "RepaintFence s + count_list ops OpPost < 2 ^ 64 \<Longrightarrow>
   RepaintFence s \<le> RepaintFence (run_repaint_ops ops s) \<and>
   RepaintFence (run_repaint_ops ops s) \<le> RepaintFence s + count_list ops OpPost"
proof (induction ops arbitrary: s)
  case Nil
  then show ?case by (simp add: run_repaint_ops_def)
next
  case (Cons x ops)
  let ?s = "apply_repaint_op x s"
  have a: "RepaintFence ?s \<le> RepaintFence s + (if x = OpPost then 1 else 0)"
    by (rule apply_repaint_op_fence_le)
  have b: "RepaintFence s \<le> RepaintFence ?s"
    using Cons.prems by (intro apply_repaint_op_mono) (auto split: if_splits)
  have "RepaintFence ?s + count_list ops OpPost < 2 ^ 64"
    using a Cons.prems by (auto split: if_splits)
  from Cons.IH [OF this] a b show ?case
    by (auto simp: run_repaint_ops_def split: if_splits)
qed


lemma stale_exactly_once_snoc:
  "rs \<noteq> [] \<Longrightarrow> stale_exactly_once rs \<Longrightarrow> stale_exactly_once (rs @ [True])"
proof -
  assume ne: "rs \<noteq> []" and "stale_exactly_once rs"
  then have rs: "rs = False # replicate (length rs - 1) True"
    by (simp add: stale_exactly_once_def)
  have "rs @ [True] = False # (replicate (length rs - 1) True @ [True])"
    by (subst rs) simp
  also have "\<dots> = False # replicate (length rs) True"
    using ne by (cases rs) (simp_all add: replicate_append_same)
  finally show ?thesis by (simp add: stale_exactly_once_def)
qed

lemma reports_at_above:
  "\<forall>e \<in> set lg. fst e \<le> f \<Longrightarrow> f < v \<Longrightarrow> reports_at v lg = []"
  by (auto simp: reports_at_def filter_empty_conv)

lemma reports_at_snoc:
  "reports_at v (lg @ [(f, b)]) = (if f = v then reports_at v lg @ [b] else reports_at v lg)"
  by (simp add: reports_at_def)

lemma group_step_inv:
  assumes "group_inv r"
    and "RepaintFence (gr_fence r) + (if x = EvPost then 1 else 0) < 2 ^ 64"
  shows "group_inv (group_step r x)"
proof (cases x)
  case EvFlag
  with assms show ?thesis by (simp add: group_inv_def FlagSceneRepaint_def Let_def)
next
  case EvPost
  show ?thesis
  proof (cases "RepaintRequested (gr_fence r)")
    case False
    with assms EvPost show ?thesis by (simp add: group_inv_def PostPendingRepaintRequest_def Let_def)
  next
    case True
    let ?f = "RepaintFence (gr_fence r)"
    have f': "RepaintFence (gr_fence (group_step r x)) = ?f + 1"
      using True EvPost assms(2) by (simp add: PostPendingRepaintRequest_def)
    have log: "gr_log (group_step r x) = gr_log r" and grp: "gr_group (group_step r x) = gr_group r"
      using EvPost by simp_all
    have le: "\<forall>e \<in> set (gr_log r). fst e \<le> ?f" using assms(1) by (simp add: group_inv_def Let_def)
    have "reports_at (?f + 1) (gr_log r) = []"
      by (rule reports_at_above [OF le]) simp
    moreover have "LastRepaint (gr_group r) \<le> ?f" using assms(1) by (simp add: group_inv_def Let_def)
    moreover have "\<forall>v. stale_exactly_once (reports_at v (gr_log r))"
      using assms(1) by (simp add: group_inv_def Let_def)
    ultimately show ?thesis
      using le unfolding group_inv_def Let_def f' log grp by auto
  qed
next
  case EvStartRepaint
  let ?f = "RepaintFence (gr_fence r)"
  let ?l = "LastRepaint (gr_group r)"
  have le: "\<forall>e \<in> set (gr_log r). fst e \<le> ?f" and ll: "?l \<le> ?f"
    and good: "\<forall>v. stale_exactly_once (reports_at v (gr_log r))"
    using assms(1) by (simp_all add: group_inv_def Let_def)
  show ?thesis
  proof (cases "?l = ?f")
    case True
    then have ne: "reports_at ?f (gr_log r) \<noteq> []" using assms(1) by (simp add: group_inv_def Let_def)
    have st: "group_step r x = r\<lparr>gr_log := gr_log r @ [(?f, True)]\<rparr>"
      using True EvStartRepaint by (simp add: StartRepaint_def Let_def)
    have "stale_exactly_once (reports_at v (gr_log r @ [(?f, True)]))" for v
      using good ne by (auto simp: reports_at_snoc intro: stale_exactly_once_snoc)
    then show ?thesis
      using le ll True ne unfolding st group_inv_def Let_def by (auto simp: reports_at_snoc)
  next
    case False
    then have em: "reports_at ?f (gr_log r) = []" using assms(1) by (simp add: group_inv_def Let_def)
    have st: "group_step r x = r\<lparr>gr_group := (gr_group r)\<lparr>LastRepaint := ?f\<rparr>, gr_log := gr_log r @ [(?f, False)]\<rparr>"
      using False EvStartRepaint by (simp add: StartRepaint_def Let_def)
    have "stale_exactly_once (reports_at v (gr_log r @ [(?f, False)]))" for v
      using good em by (auto simp: reports_at_snoc stale_exactly_once_def)
    then show ?thesis
      using le unfolding st group_inv_def Let_def by (auto simp: reports_at_snoc)
  qed
qed

lemma group_step_fence_le:
  "RepaintFence (gr_fence (group_step r x)) \<le> RepaintFence (gr_fence r) + (if x = EvPost then 1 else 0)"
  by (cases x)
    (auto simp: PostPendingRepaintRequest_def FlagSceneRepaint_def split: prod.splits
      intro: order_trans [OF mod_less_eq_dividend])

lemma group_run_events_inv:
  "group_inv r \<Longrightarrow> RepaintFence (gr_fence r) + count_list es EvPost < 2 ^ 64 \<Longrightarrow>
   group_inv (group_run_events r es)"
proof (induction es arbitrary: r)
  case Nil
  then show ?case by (simp add: group_run_events_def)
next
  case (Cons x es)
  have a: "group_inv (group_step r x)"
    using Cons.prems by (intro group_step_inv) (auto split: if_splits)
  have "RepaintFence (gr_fence (group_step r x)) + count_list es EvPost < 2 ^ 64"
    using group_step_fence_le [of r x] Cons.prems(2) by (auto split: if_splits)
  from Cons.IH [OF a this] show ?case by (simp add: group_run_events_def)
qed

lemma group_inv_fresh:
  "gr_log r = [] \<Longrightarrow> LastRepaint (gr_group r) < RepaintFence (gr_fence r) \<Longrightarrow> group_inv r"
  by (simp add: group_inv_def Let_def reports_at_def stale_exactly_once_def)

lemma run_repaint_ops_append:
  "run_repaint_ops (p @ q) s = run_repaint_ops q (run_repaint_ops p s)"
  by (simp add: run_repaint_ops_def)

lemma run_repaint_ops_initial:
  assumes "count_list ops OpPost < 2 ^ 64 - 1"
  shows "1 \<le> RepaintFence (run_repaint_ops ops initial_repaint)"
    and "RepaintFence (run_repaint_ops ops initial_repaint) \<le> 1 + count_list ops OpPost"
proof -
  have "RepaintFence initial_repaint + count_list ops OpPost < 2 ^ 64"
    using assms by (simp add: initial_repaint_def)
  from run_repaint_ops_bounds [OF this]
  show "1 \<le> RepaintFence (run_repaint_ops ops initial_repaint)"
    and "RepaintFence (run_repaint_ops ops initial_repaint) \<le> 1 + count_list ops OpPost"
    by (simp_all add: initial_repaint_def)
qed

text \<open>
  C5. A run of the program is a sequence of calls of the two functions from the start
  state (fence 1, nothing requested); it is taken to make fewer than \<open>2 ^ 64 - 1\<close> calls of
  \<^verbatim>\<open>PostPendingRepaintRequest()\<close>, the number after which the 64-bit fence could first
  wrap around. At every point \<open>ops\<close> of such a run, any number \<open>n \<ge> 1\<close> of
  \<^verbatim>\<open>FlagSceneRepaint()\<close> calls followed by one \<^verbatim>\<open>PostPendingRepaintRequest()\<close> raises the
  fence by exactly 1. A post directly after a post, and a post in any state where no repaint
  is requested, leave the fence unchanged. The fence never decreases: after a prefix \<open>p\<close> of a
  run \<open>p @ q\<close> it is at most what it is after the run.
\<close>

theorem repaint_fence_advances:
  "(0 < n \<and> count_list ops OpPost + 1 < 2 ^ 64 - 1 \<longrightarrow>
      RepaintFence (PostPendingRepaintRequest
          ((FlagSceneRepaint ^^ n) (run_repaint_ops ops initial_repaint)))
        = RepaintFence (run_repaint_ops ops initial_repaint) + 1)
   \<and> RepaintFence (PostPendingRepaintRequest (PostPendingRepaintRequest s))
       = RepaintFence (PostPendingRepaintRequest s)
   \<and> (\<not> RepaintRequested s \<longrightarrow> RepaintFence (PostPendingRepaintRequest s) = RepaintFence s)
   \<and> (count_list (p @ q) OpPost < 2 ^ 64 - 1 \<longrightarrow>
      RepaintFence (run_repaint_ops p initial_repaint)
        \<le> RepaintFence (run_repaint_ops (p @ q) initial_repaint))"
proof (intro conjI impI)
  assume a: "0 < n \<and> count_list ops OpPost + 1 < 2 ^ 64 - 1"
  then have "count_list ops OpPost < 2 ^ 64 - 1" by simp
  from run_repaint_ops_initial(2) [OF this] a
  have "RepaintFence (run_repaint_ops ops initial_repaint) + 1 < 2 ^ 64" by simp
  with a show "RepaintFence (PostPendingRepaintRequest
          ((FlagSceneRepaint ^^ n) (run_repaint_ops ops initial_repaint)))
        = RepaintFence (run_repaint_ops ops initial_repaint) + 1"
    by (simp add: post_after_flags)
next
  show "RepaintFence (PostPendingRepaintRequest (PostPendingRepaintRequest s))
       = RepaintFence (PostPendingRepaintRequest s)"
    by (simp only: post_twice)
next
  assume "\<not> RepaintRequested s"
  then show "RepaintFence (PostPendingRepaintRequest s) = RepaintFence s"
    by (simp add: PostPendingRepaintRequest_def)
next
  assume b: "count_list (p @ q) OpPost < 2 ^ 64 - 1"
  then have "count_list p OpPost < 2 ^ 64 - 1" by simp
  from run_repaint_ops_initial(2) [OF this]
  have "RepaintFence (run_repaint_ops p initial_repaint) + count_list q OpPost < 2 ^ 64"
    using b by simp
  from run_repaint_ops_bounds [OF this]
  show "RepaintFence (run_repaint_ops p initial_repaint)
      \<le> RepaintFence (run_repaint_ops (p @ q) initial_repaint)"
    by (simp add: run_repaint_ops_append)
qed

theorem repaint_fence_advances_witness:
  "RepaintFence (run_repaint_ops [OpFlag, OpPost] initial_repaint) = 2
   \<and> RepaintFence (PostPendingRepaintRequest
        ((FlagSceneRepaint ^^ 3) (run_repaint_ops [OpFlag, OpPost] initial_repaint))) = 3
   \<and> RepaintFence (PostPendingRepaintRequest initial_repaint) = 1
   \<and> RepaintFence (run_repaint_ops [OpFlag, OpPost] initial_repaint)
       \<le> RepaintFence (run_repaint_ops ([OpFlag, OpPost] @ [OpFlag, OpFlag, OpPost]) initial_repaint)"
proof -
  have two: "RepaintFence (run_repaint_ops [OpFlag, OpPost] initial_repaint) = 2"
    by (simp add: run_repaint_ops_def initial_repaint_def FlagSceneRepaint_def
        PostPendingRepaintRequest_def)
  have h1: "0 < (3::nat) \<and> count_list [OpFlag, OpPost] OpPost + 1 < 2 ^ 64 - 1" by simp
  have h3: "\<not> RepaintRequested initial_repaint" by (simp add: initial_repaint_def)
  have h4: "count_list ([OpFlag, OpPost] @ [OpFlag, OpFlag, OpPost]) OpPost < 2 ^ 64 - 1" by simp
  from repaint_fence_advances [of 3 "[OpFlag, OpPost]" initial_repaint "[OpFlag, OpPost]"
      "[OpFlag, OpFlag, OpPost]"] h1 h3 h4
  have "RepaintFence (PostPendingRepaintRequest
          ((FlagSceneRepaint ^^ 3) (run_repaint_ops [OpFlag, OpPost] initial_repaint)))
        = RepaintFence (run_repaint_ops [OpFlag, OpPost] initial_repaint) + 1"
    and "RepaintFence (PostPendingRepaintRequest initial_repaint) = RepaintFence initial_repaint"
    and "RepaintFence (run_repaint_ops [OpFlag, OpPost] initial_repaint)
       \<le> RepaintFence (run_repaint_ops ([OpFlag, OpPost] @ [OpFlag, OpFlag, OpPost]) initial_repaint)"
    by blast+
  then show ?thesis using two by (simp add: initial_repaint_def)
qed

text \<open>
  The bound on the number of posts is the width of the counter: it takes \<open>2 ^ 64 - 2\<close>
  frames that each flag and post to bring the fence to \<open>2 ^ 64 - 1\<close>, and only the frame
  after those wraps it to 0.
\<close>

lemma repaint_fence_width:
  "RepaintFence (repaint_frames (2 ^ 64 - 2) initial_repaint) = 2 ^ 64 - 1
   \<and> RepaintFence (repaint_frame (repaint_frames (2 ^ 64 - 2) initial_repaint)) = 0"
  by (simp add: repaint_frame_fence repaint_frames_fence initial_repaint_def)

subsection \<open>StartRepaint\<close>

lemma group_run_stale_once:
  assumes "gr_log r = []" and "LastRepaint (gr_group r) < RepaintFence (gr_fence r)"
    and "RepaintFence (gr_fence r) + count_list es EvPost < 2 ^ 64"
  shows "stale_exactly_once (reports_at v (gr_log (group_run_events r es)))"
proof -
  from assms(1,2) have "group_inv r" by (simp add: group_inv_fresh)
  with assms(3) have "group_inv (group_run_events r es)" by (simp add: group_run_events_inv)
  then show ?thesis by (simp add: group_inv_def Let_def)
qed

text \<open>
  C6. A group whose stamp differs from the current fence reports stale on
  \<^verbatim>\<open>StartRepaint()\<close> and takes the fence as its stamp; a further call at the same fence
  reports current and changes nothing. For a whole run: the program runs from the start
  state through any calls \<open>ops\<close> of the two fence functions, then a coloring group is
  constructed, then flags, posts and calls of the group's \<^verbatim>\<open>StartRepaint()\<close> follow in any
  order \<open>es\<close>; the run makes fewer than \<open>2 ^ 64 - 1\<close> posts in all, the number after which
  the 64-bit fence could first wrap around. Then the group's reports at each fence value
  \<open>v\<close> are stale exactly once, on the first call at that value, and current afterwards.
\<close>

theorem StartRepaint_stale_once:
  "(LastRepaint g \<noteq> RepaintFence s \<longrightarrow>
      StartRepaint s g = (False, g\<lparr>LastRepaint := RepaintFence s\<rparr>))
   \<and> StartRepaint s (snd (StartRepaint s g)) = (True, snd (StartRepaint s g))
   \<and> (count_list ops OpPost + count_list es EvPost < 2 ^ 64 - 1 \<longrightarrow>
      stale_exactly_once (reports_at v (gr_log (group_run_events
        \<lparr>gr_fence = run_repaint_ops ops initial_repaint,
         gr_group = new_InstanceColoringGroup InVertexGroup InIndexStart InIndexRange,
         gr_log = []\<rparr> es))))"
proof (intro conjI impI)
  assume "LastRepaint g \<noteq> RepaintFence s"
  then show "StartRepaint s g = (False, g\<lparr>LastRepaint := RepaintFence s\<rparr>)"
    by (simp add: StartRepaint_def)
next
  show "StartRepaint s (snd (StartRepaint s g)) = (True, snd (StartRepaint s g))"
    by (simp add: StartRepaint_def Let_def)
next
  assume a: "count_list ops OpPost + count_list es EvPost < 2 ^ 64 - 1"
  let ?r = "\<lparr>gr_fence = run_repaint_ops ops initial_repaint,
         gr_group = new_InstanceColoringGroup InVertexGroup InIndexStart InIndexRange,
         gr_log = []\<rparr>"
  from a have c: "count_list ops OpPost < 2 ^ 64 - 1" by simp
  have lo: "1 \<le> RepaintFence (run_repaint_ops ops initial_repaint)"
    and hi: "RepaintFence (run_repaint_ops ops initial_repaint) \<le> 1 + count_list ops OpPost"
    using run_repaint_ops_initial [OF c] by simp_all
  have 1: "gr_log ?r = []" by simp
  have 2: "LastRepaint (gr_group ?r) < RepaintFence (gr_fence ?r)"
    using lo by (simp add: new_InstanceColoringGroup_def)
  have 3: "RepaintFence (gr_fence ?r) + count_list es EvPost < 2 ^ 64"
    using hi a by simp
  show "stale_exactly_once (reports_at v (gr_log (group_run_events ?r es)))"
    by (rule group_run_stale_once [OF 1 2 3])
qed

theorem StartRepaint_stale_once_witness:
  "gr_log (group_run_events
      \<lparr>gr_fence = run_repaint_ops [OpFlag, OpPost] initial_repaint,
       gr_group = (new_InstanceColoringGroup 0 0 1 :: unit InstanceColoringGroup),
       gr_log = []\<rparr>
      [EvStartRepaint, EvStartRepaint, EvFlag, EvPost, EvStartRepaint, EvStartRepaint])
     = [(2, False), (2, True), (3, False), (3, True)]
   \<and> stale_exactly_once (reports_at 3 (gr_log (group_run_events
      \<lparr>gr_fence = run_repaint_ops [OpFlag, OpPost] initial_repaint,
       gr_group = (new_InstanceColoringGroup 0 0 1 :: unit InstanceColoringGroup),
       gr_log = []\<rparr>
      [EvStartRepaint, EvStartRepaint, EvFlag, EvPost, EvStartRepaint, EvStartRepaint])))"
proof -
  have lg: "gr_log (group_run_events
      \<lparr>gr_fence = run_repaint_ops [OpFlag, OpPost] initial_repaint,
       gr_group = (new_InstanceColoringGroup 0 0 1 :: unit InstanceColoringGroup),
       gr_log = []\<rparr>
      [EvStartRepaint, EvStartRepaint, EvFlag, EvPost, EvStartRepaint, EvStartRepaint])
     = [(2, False), (2, True), (3, False), (3, True)]"
    by (simp add: group_run_events_def run_repaint_ops_def StartRepaint_def
        new_InstanceColoringGroup_def initial_repaint_def FlagSceneRepaint_def
        PostPendingRepaintRequest_def)
  have h: "count_list [OpFlag, OpPost] OpPost
      + count_list [EvStartRepaint, EvStartRepaint, EvFlag, EvPost, EvStartRepaint, EvStartRepaint] EvPost
      < 2 ^ 64 - 1"
    by simp
  from StartRepaint_stale_once [of "new_InstanceColoringGroup 0 0 1 :: unit InstanceColoringGroup"
      initial_repaint "[OpFlag, OpPost]"
      "[EvStartRepaint, EvStartRepaint, EvFlag, EvPost, EvStartRepaint, EvStartRepaint]" 3 0 0 1] h
  have "stale_exactly_once (reports_at 3 (gr_log (group_run_events
      \<lparr>gr_fence = run_repaint_ops [OpFlag, OpPost] initial_repaint,
       gr_group = (new_InstanceColoringGroup 0 0 1 :: unit InstanceColoringGroup),
       gr_log = []\<rparr>
      [EvStartRepaint, EvStartRepaint, EvFlag, EvPost, EvStartRepaint, EvStartRepaint])))"
    by blast
  with lg show ?thesis by simp
qed

text \<open>
  The bound is again the width of the counter: only after \<open>2 ^ 64 - 1\<close> flagged frames is
  the fence 0, the stamp a group is constructed with.
\<close>

lemma repaint_fence_zero:
  "RepaintFence (repaint_frames (2 ^ 64 - 1) initial_repaint) = LastRepaint
     (new_InstanceColoringGroup 0 0 1 :: unit InstanceColoringGroup)"
  by (simp add: new_InstanceColoringGroup_def repaint_frames_fence initial_repaint_def)

subsection \<open>Ray marching\<close>

text \<open>
  C10. \<^verbatim>\<open>SDFModel::RayMarch\<close> ignores \<^verbatim>\<open>MaxIterations\<close> and \<^verbatim>\<open>Epsilon\<close>: it hands the
  transformed origin and direction to the evaluator with the step limit 1000, so two calls
  that differ only in those two arguments return the same hit.
\<close>

theorem RayMarch_ignores_limits:
  "RayMarch m RayStart RayDir MaxIterations1 Epsilon1 =
     EvaluatorRayMarch m (ApplyInv m RayStart) (InvRotate m RayDir) 1000
   \<and> RayMarch m RayStart RayDir MaxIterations1 Epsilon1 =
     RayMarch m RayStart RayDir MaxIterations2 Epsilon2"
  by (simp add: RayMarch_def)

subsection \<open>SequenceGenerator\<close>

lemma Reset_loop_concat:
  assumes "Partitions * SliceCount < 2 ^ 64"
    and "LaneIndex \<le> Partitions"
    and "SliceStart = min (LaneIndex * SliceCount) Count"
  shows "concat (map slice_indices (Reset_loop Count Partitions SliceCount LaneIndex SliceStart Lanes))
       = concat (map slice_indices Lanes) @ [SliceStart ..< min (Partitions * SliceCount) Count]"
  using assms
proof (induction Count Partitions SliceCount LaneIndex SliceStart Lanes rule: Reset_loop.induct)
  case (1 Count Partitions SliceCount LaneIndex SliceStart Lanes)
  let ?stop = "min ((SliceStart + SliceCount) mod 2 ^ 64) Count"
  show ?case
  proof (cases "LaneIndex < Partitions")
    case False
    with "1.prems" have "LaneIndex = Partitions" by simp
    with "1.prems" show ?thesis by (subst Reset_loop.simps) simp
  next
    case lt: True
    show ?thesis
    proof (cases "SliceStart < ?stop")
      case False
      have "min (Partitions * SliceCount) Count \<le> SliceStart"
      proof (cases "LaneIndex * SliceCount < Count")
        case True
        then have a: "SliceStart = LaneIndex * SliceCount" using "1.prems" by simp
        have "(LaneIndex + 1) * SliceCount \<le> Partitions * SliceCount"
          using lt by (intro mult_le_mono1) simp
        then have "SliceStart + SliceCount < 2 ^ 64" using a "1.prems"(1) by simp
        then have "?stop = min (SliceStart + SliceCount) Count" by simp
        with False True a have "SliceCount = 0" by (simp add: min_def split: if_splits)
        then show ?thesis using a by simp
      next
        case False
        then show ?thesis using "1.prems" by simp
      qed
      moreover have "Reset_loop Count Partitions SliceCount LaneIndex SliceStart Lanes = Lanes"
        using False lt by (subst Reset_loop.simps) (simp only: Let_def if_True if_False)
      ultimately show ?thesis by simp
    next
      case True
      then have c: "LaneIndex * SliceCount < Count" using "1.prems" by (auto simp: min_def split: if_splits)
      then have a: "SliceStart = LaneIndex * SliceCount" using "1.prems" by simp
      have le: "(LaneIndex + 1) * SliceCount \<le> Partitions * SliceCount"
        using lt by (intro mult_le_mono1) simp
      then have "SliceStart + SliceCount < 2 ^ 64" using a "1.prems"(1) by simp
      then have stop: "?stop = min ((LaneIndex + 1) * SliceCount) Count" using a by simp
      have IH: "concat (map slice_indices (Reset_loop Count Partitions SliceCount (LaneIndex + 1) ?stop
                   (Lanes @ [\<lparr>Start = SliceStart, StopBefore = ?stop\<rparr>])))
          = concat (map slice_indices (Lanes @ [\<lparr>Start = SliceStart, StopBefore = ?stop\<rparr>]))
            @ [?stop ..< min (Partitions * SliceCount) Count]"
      proof (rule "1.IH" [OF lt refl True "1.prems"(1)])
        show "LaneIndex + 1 \<le> Partitions" using lt by simp
        show "?stop = min ((LaneIndex + 1) * SliceCount) Count" by (rule stop)
      qed
      have "?stop \<le> min (Partitions * SliceCount) Count" using le stop by simp
      then have "[SliceStart ..< ?stop] @ [?stop ..< min (Partitions * SliceCount) Count]
          = [SliceStart ..< min (Partitions * SliceCount) Count]"
        using True by (metis le_Suc_ex less_imp_le_nat upt_add_eq_append)
      then show ?thesis
        using lt True IH by (subst Reset_loop.simps) (simp add: Let_def slice_indices_def)
    qed
  qed
qed

lemma Reset_loop_length:
  "LaneIndex \<le> Partitions \<Longrightarrow>
   length (Reset_loop Count Partitions SliceCount LaneIndex SliceStart Lanes) + LaneIndex
     \<le> length Lanes + Partitions"
proof (induction Count Partitions SliceCount LaneIndex SliceStart Lanes rule: Reset_loop.induct)
  case (1 Count Partitions SliceCount LaneIndex SliceStart Lanes)
  let ?stop = "min ((SliceStart + SliceCount) mod 2 ^ 64) Count"
  show ?case
  proof (cases "LaneIndex < Partitions \<and> SliceStart < ?stop")
    case True
    then have "length (Reset_loop Count Partitions SliceCount (LaneIndex + 1) ?stop
                 (Lanes @ [\<lparr>Start = SliceStart, StopBefore = ?stop\<rparr>])) + (LaneIndex + 1)
        \<le> length (Lanes @ [\<lparr>Start = SliceStart, StopBefore = ?stop\<rparr>]) + Partitions"
      by (intro "1.IH") simp_all
    moreover have "Reset_loop Count Partitions SliceCount LaneIndex SliceStart Lanes
        = Reset_loop Count Partitions SliceCount (LaneIndex + 1) ?stop
            (Lanes @ [\<lparr>Start = SliceStart, StopBefore = ?stop\<rparr>])"
      using True by (subst Reset_loop.simps) (simp only: Let_def if_True)
    ultimately show ?thesis by simp
  next
    case False
    then have "Reset_loop Count Partitions SliceCount LaneIndex SliceStart Lanes = Lanes"
      by (subst Reset_loop.simps) (auto simp only: Let_def if_True if_False split: if_splits)
    then show ?thesis using "1.prems" by simp
  qed
qed

lemma Reset_loop_nonempty:
  "list_all (\<lambda>l. Start l < StopBefore l) Lanes \<Longrightarrow>
   list_all (\<lambda>l. Start l < StopBefore l) (Reset_loop Count Partitions SliceCount LaneIndex SliceStart Lanes)"
proof (induction Count Partitions SliceCount LaneIndex SliceStart Lanes rule: Reset_loop.induct)
  case (1 Count Partitions SliceCount LaneIndex SliceStart Lanes)
  show ?case
    using "1.IH" "1.prems" by (subst Reset_loop.simps) (auto simp: Let_def)
qed

lemma ceil_div_bounds:
  assumes "0 < (P::nat)"
  shows "C \<le> P * ((C + P - 1) div P)" and "P * ((C + P - 1) div P) \<le> C + P - 1"
proof -
  have "P * ((C + P - 1) div P) + (C + P - 1) mod P = C + P - 1" by simp
  moreover have "(C + P - 1) mod P < P" using assms by simp
  ultimately show "C \<le> P * ((C + P - 1) div P)" by linarith
  show "P * ((C + P - 1) div P) \<le> C + P - 1" by simp
qed

lemma Advance_calls_eq:
  "sg_Progress sg + n \<le> 2 ^ 64 \<Longrightarrow>
   Advance_calls n sg =
     map (\<lambda>i. if i < length (sg_Lanes sg)
               then (True, Start (sg_Lanes sg ! i), StopBefore (sg_Lanes sg ! i))
               else (False, 0, 0))
       [sg_Progress sg ..< sg_Progress sg + n]"
proof (induction n arbitrary: sg)
  case 0
  then show ?case by simp
next
  case (Suc n)
  let ?sg = "sg\<lparr>sg_Progress := (sg_Progress sg + 1) mod 2 ^ 64\<rparr>"
  show ?case
  proof (cases n)
    case 0
    then show ?thesis by (simp add: SequenceGenerator_Advance_def Let_def)
  next
    case (Suc m)
    with Suc.prems have "sg_Progress sg + 1 < 2 ^ 64" by simp
    then have p: "sg_Progress ?sg = sg_Progress sg + 1" by simp
    then have "sg_Progress ?sg + n \<le> 2 ^ 64" using Suc.prems by simp
    from Suc.IH [OF this] p show ?thesis
      by (simp add: SequenceGenerator_Advance_def Let_def upt_rec [of "sg_Progress sg"])
  qed
qed


lemma Reset_lanes:
  assumes "1 \<le> Partitions" and "Count + Partitions \<le> 2 ^ 64"
    and "Partitions \<le> MaxSize lim" and "Partitions \<le> Available lim"
  shows "Reset lim Count Partitions =
           Inr \<lparr>sg_Lanes = Reset_loop Count Partitions ((Count + Partitions - 1) div Partitions) 0 0 [],
                 sg_Progress = 0\<rparr>"
proof -
  have "Count + Partitions - 1 < 2 ^ 64" using assms by simp
  then show ?thesis using assms by (simp add: Reset_def)
qed

lemma Nil_eq_upt: "([] = [i ..< j]) = (j \<le> i)"
  using upt_eq_Nil_conv [of i j] by (auto simp only: eq_commute [of "[]"])

lemma Reset_partition:
  assumes "1 \<le> Partitions" and "Partitions < 2 ^ 64" and "Count + Partitions \<le> 2 ^ 64"
    and "Partitions \<le> MaxSize lim" and "Partitions \<le> Available lim"
  shows "\<exists>sg. Reset lim Count Partitions = Inr sg
           \<and> sg_Progress sg = 0
           \<and> length (sg_Lanes sg) \<le> Partitions
           \<and> lanes_partition (sg_Lanes sg) Count
           \<and> Advance_calls (length (sg_Lanes sg) + 1) sg
               = map (\<lambda>l. (True, Start l, StopBefore l)) (sg_Lanes sg) @ [(False, 0, 0)]"
proof -
  let ?S = "(Count + Partitions - 1) div Partitions"
  let ?L = "Reset_loop Count Partitions ?S 0 0 []"
  let ?sg = "\<lparr>sg_Lanes = ?L, sg_Progress = 0\<rparr>"
  have P: "0 < Partitions" using assms(1) by simp
  have lo: "Count \<le> Partitions * ?S" and hi: "Partitions * ?S \<le> Count + Partitions - 1"
    using ceil_div_bounds [OF P, of Count] by simp_all
  have small: "Partitions * ?S < 2 ^ 64" using hi assms(1-3) by linarith
  have "concat (map slice_indices ?L) = concat (map slice_indices []) @ [0 ..< min (Partitions * ?S) Count]"
    by (rule Reset_loop_concat [OF small]) simp_all
  then have cover: "concat (map slice_indices ?L) = [0 ..< Count]" using lo by (simp add: min_absorb2)
  have ne: "list_all (\<lambda>l. Start l < StopBefore l) ?L"
    by (rule Reset_loop_nonempty) simp
  have len: "length ?L \<le> Partitions"
    using Reset_loop_length [of 0 Partitions Count ?S 0 "[]"] by simp
  have "sg_Progress ?sg + (length ?L + 1) \<le> 2 ^ 64" using len assms(1-3) by simp
  from Advance_calls_eq [OF this]
  have "Advance_calls (length ?L + 1) ?sg
      = map (\<lambda>i. (True, Start (?L ! i), StopBefore (?L ! i))) [0 ..< length ?L] @ [(False, 0, 0)]"
    by simp
  also have "map (\<lambda>i. (True, Start (?L ! i), StopBefore (?L ! i))) [0 ..< length ?L]
      = map (\<lambda>l. (True, Start l, StopBefore l)) ?L"
    by (rule nth_equalityI) simp_all
  finally have adv: "Advance_calls (length ?L + 1) ?sg
      = map (\<lambda>l. (True, Start l, StopBefore l)) ?L @ [(False, 0, 0)]" .
  show ?thesis
    using Reset_lanes [OF assms(1,3,4,5)] cover ne len adv by (simp add: lanes_partition_def)
qed

text \<open>
  C3 (as amended). Let \<open>Partitions \<ge> 1\<close> and let \<open>Count + Partitions - 1\<close> be representable
  in \<^verbatim>\<open>size_t\<close>. When \<^verbatim>\<open>Lanes.reserve(Partitions)\<close> succeeds, that is when \<open>Partitions\<close>
  exceeds neither the vector's \<^verbatim>\<open>max_size()\<close> nor what can be allocated,
  \<^verbatim>\<open>Reset(Count, Partitions)\<close> produces at most \<open>Partitions\<close> lanes, none of them empty,
  that enumerate \<open>[0, Count)\<close> in order, each index exactly once; the following \<^verbatim>\<open>Advance\<close>
  calls hand out the lanes one by one, each once, and the next call returns false (with both
  outputs 0). When \<^verbatim>\<open>reserve\<close> fails, \<^verbatim>\<open>Reset\<close> throws \<^verbatim>\<open>std::length_error\<close> or
  \<^verbatim>\<open>std::bad_alloc\<close> and produces no partition.
\<close>

theorem Reset_partitions_range:
  assumes "1 \<le> Partitions" and "Partitions < 2 ^ 64" and "Count + Partitions \<le> 2 ^ 64"
  shows "(MaxSize lim < Partitions \<longrightarrow> Reset lim Count Partitions = Inl LengthError)
       \<and> (Partitions \<le> MaxSize lim \<and> Available lim < Partitions \<longrightarrow>
            Reset lim Count Partitions = Inl BadAlloc)
       \<and> (Partitions \<le> MaxSize lim \<and> Partitions \<le> Available lim \<longrightarrow>
            (\<exists>sg. Reset lim Count Partitions = Inr sg
               \<and> sg_Progress sg = 0
               \<and> length (sg_Lanes sg) \<le> Partitions
               \<and> lanes_partition (sg_Lanes sg) Count
               \<and> Advance_calls (length (sg_Lanes sg) + 1) sg
                   = map (\<lambda>l. (True, Start l, StopBefore l)) (sg_Lanes sg) @ [(False, 0, 0)]))"
proof (intro conjI impI)
  assume "MaxSize lim < Partitions"
  then show "Reset lim Count Partitions = Inl LengthError"
    using assms(1) by (simp add: Reset_def)
next
  assume "Partitions \<le> MaxSize lim \<and> Available lim < Partitions"
  then show "Reset lim Count Partitions = Inl BadAlloc"
    using assms(1) by (simp add: Reset_def)
next
  assume "Partitions \<le> MaxSize lim \<and> Partitions \<le> Available lim"
  then have "Partitions \<le> MaxSize lim" and "Partitions \<le> Available lim" by simp_all
  from Reset_partition [OF assms this]
  show "\<exists>sg. Reset lim Count Partitions = Inr sg
               \<and> sg_Progress sg = 0
               \<and> length (sg_Lanes sg) \<le> Partitions
               \<and> lanes_partition (sg_Lanes sg) Count
               \<and> Advance_calls (length (sg_Lanes sg) + 1) sg
                   = map (\<lambda>l. (True, Start l, StopBefore l)) (sg_Lanes sg) @ [(False, 0, 0)]" .
qed

theorem Reset_partitions_range_witness:
  "Reset example_limits 100 4 =
     Inr \<lparr>sg_Lanes = [\<lparr>Start = 0, StopBefore = 25\<rparr>, \<lparr>Start = 25, StopBefore = 50\<rparr>,
        \<lparr>Start = 50, StopBefore = 75\<rparr>, \<lparr>Start = 75, StopBefore = 100\<rparr>], sg_Progress = 0\<rparr>
   \<and> lanes_partition [\<lparr>Start = 0, StopBefore = 25\<rparr>, \<lparr>Start = 25, StopBefore = 50\<rparr>,
        \<lparr>Start = 50, StopBefore = 75\<rparr>, \<lparr>Start = 75, StopBefore = 100\<rparr>] 100
   \<and> Advance_calls 5 \<lparr>sg_Lanes = [\<lparr>Start = 0, StopBefore = 25\<rparr>, \<lparr>Start = 25, StopBefore = 50\<rparr>,
        \<lparr>Start = 50, StopBefore = 75\<rparr>, \<lparr>Start = 75, StopBefore = 100\<rparr>], sg_Progress = 0\<rparr>
      = [(True, 0, 25), (True, 25, 50), (True, 50, 75), (True, 75, 100), (False, 0, 0)]
   \<and> Reset example_limits 5 (2 ^ 62) = Inl LengthError
   \<and> Reset example_limits 5 (2 ^ 40) = Inl BadAlloc"
proof -
  have r: "Reset example_limits 100 4 =
     Inr \<lparr>sg_Lanes = [\<lparr>Start = 0, StopBefore = 25\<rparr>, \<lparr>Start = 25, StopBefore = 50\<rparr>,
        \<lparr>Start = 50, StopBefore = 75\<rparr>, \<lparr>Start = 75, StopBefore = 100\<rparr>], sg_Progress = 0\<rparr>"
    by (simp add: Reset_def Reset_loop.simps example_limits_def)
  let ?X = "\<lparr>sg_Lanes = [\<lparr>Start = 0, StopBefore = 25\<rparr>, \<lparr>Start = 25, StopBefore = 50\<rparr>,
        \<lparr>Start = 50, StopBefore = 75\<rparr>, \<lparr>Start = 75, StopBefore = 100\<rparr>], sg_Progress = 0\<rparr>"
  have ok: "(4::nat) \<le> MaxSize example_limits \<and> (4::nat) \<le> Available example_limits"
    by (simp add: example_limits_def)
  have "(1::nat) \<le> 4" and "(4::nat) < 2 ^ 64" and "(100::nat) + 4 \<le> 2 ^ 64" by simp_all
  from Reset_partitions_range [OF this, of example_limits] ok obtain sg where
    sg: "Reset example_limits 100 4 = Inr sg" and part: "lanes_partition (sg_Lanes sg) 100"
    and adv: "Advance_calls (length (sg_Lanes sg) + 1) sg
               = map (\<lambda>l. (True, Start l, StopBefore l)) (sg_Lanes sg) @ [(False, 0, 0)]"
    by blast
  from sg r have eq: "sg = ?X" by simp
  have five: "length (sg_Lanes ?X) + 1 = 5" by simp
  from adv have "Advance_calls 5 ?X = map (\<lambda>l. (True, Start l, StopBefore l)) (sg_Lanes ?X) @ [(False, 0, 0)]"
    unfolding eq five .
  then have "Advance_calls 5 ?X = [(True, 0, 25), (True, 25, 50), (True, 50, 75), (True, 75, 100), (False, 0, 0)]"
    by simp
  moreover from part have "lanes_partition (sg_Lanes ?X) 100" unfolding eq .
  moreover have big: "MaxSize example_limits < 2 ^ 62" by (simp add: example_limits_def)
  have "(1::nat) \<le> 2 ^ 62" and "(2::nat) ^ 62 < 2 ^ 64" and "(5::nat) + 2 ^ 62 \<le> 2 ^ 64" by simp_all
  from Reset_partitions_range [OF this, of example_limits] big
  have "Reset example_limits 5 (2 ^ 62) = Inl LengthError" by blast
  moreover have mid: "(2::nat) ^ 40 \<le> MaxSize example_limits \<and> Available example_limits < 2 ^ 40"
    by (simp add: example_limits_def)
  have "(1::nat) \<le> 2 ^ 40" and "(2::nat) ^ 40 < 2 ^ 64" and "(5::nat) + 2 ^ 40 \<le> 2 ^ 64" by simp_all
  from Reset_partitions_range [OF this, of example_limits] mid
  have "Reset example_limits 5 (2 ^ 40) = Inl BadAlloc" by blast
  ultimately show ?thesis using r by simp
qed

text \<open>
  C3 as stated fails where \<open>Count + Partitions - 1\<close> overflows \<^verbatim>\<open>size_t\<close>: for
  \<open>Count = 2 ^ 64 - 1\<close> and two partitions the sum wraps to 0, the slice size is 0, and
  \<^verbatim>\<open>Reset\<close> produces no lane at all.
\<close>

theorem Reset_overflow_no_lanes:
  "Reset example_limits (2 ^ 64 - 1) 2 = Inr \<lparr>sg_Lanes = [], sg_Progress = 0\<rparr>
   \<and> \<not> lanes_partition [] (2 ^ 64 - 1)"
  by (simp add: Reset_def Reset_loop.simps lanes_partition_def Nil_eq_upt example_limits_def)


subsection \<open>ParallelAccumulator\<close>

text \<open>
  C4 (the code at the failing input). \<^verbatim>\<open>Advance\<close> never changes the start the caller
  holds, since \<^verbatim>\<open>OutBatchStart\<close> is a by-value parameter. With the lanes \<open>[[10, 11], [12]]\<close>
  a drain loop receives the second lane \<open>[12]\<close> with start 0, where its offset in the merged
  sequence \<open>[10, 11, 12]\<close> is 2; even the local copy computed by the second call is 0,
  because the first lane has been moved out by then.
\<close>

theorem Advance_start_not_delivered:
  "CallerBatchStart (fst (ParallelAccumulator_Advance pa OutBatch OutBatchStart)) = OutBatchStart
   \<and> Join \<lparr>pa_Lanes = [[10, 11], [12 :: nat]], pa_Progress = 0\<rparr> [] = [10, 11, 12]
   \<and> drain_calls 3 \<lparr>pa_Lanes = [[10, 11], [12 :: nat]], pa_Progress = 0\<rparr> [] 0
       = [([10, 11], 0), ([12], 0)]
   \<and> LocalBatchStart (fst (ParallelAccumulator_Advance
         \<lparr>pa_Lanes = [[], [12 :: nat]], pa_Progress = 1\<rparr> [10, 11] 0)) = 0"
proof (intro conjI)
  show "CallerBatchStart (fst (ParallelAccumulator_Advance pa OutBatch OutBatchStart)) = OutBatchStart"
    by (simp add: ParallelAccumulator_Advance_def Let_def)
  show "Join \<lparr>pa_Lanes = [[10, 11], [12 :: nat]], pa_Progress = 0\<rparr> [] = [10, 11, 12]"
    by (simp add: Join_def)
  show "drain_calls 3 \<lparr>pa_Lanes = [[10, 11], [12 :: nat]], pa_Progress = 0\<rparr> [] 0
       = [([10, 11], 0), ([12], 0)]"
  proof -
    have s1: "ParallelAccumulator_Advance \<lparr>pa_Lanes = [[10, 11], [12 :: nat]], pa_Progress = 0\<rparr> [] 0
       = (\<lparr>Returned = True, CallerBatch = [10, 11], CallerBatchStart = 0, LocalBatchStart = 0\<rparr>,
          \<lparr>pa_Lanes = [[], [12]], pa_Progress = 1\<rparr>)"
      by (simp add: ParallelAccumulator_Advance_def Let_def sum_prior_sizes.simps)
    have s2: "ParallelAccumulator_Advance \<lparr>pa_Lanes = [[], [12 :: nat]], pa_Progress = Suc 0\<rparr> [10, 11] 0
       = (\<lparr>Returned = True, CallerBatch = [12], CallerBatchStart = 0, LocalBatchStart = 0\<rparr>,
          \<lparr>pa_Lanes = [[], []], pa_Progress = 2\<rparr>)"
      by (simp add: ParallelAccumulator_Advance_def Let_def sum_prior_sizes.simps)
    have s3: "ParallelAccumulator_Advance \<lparr>pa_Lanes = [[], [] :: nat list], pa_Progress = 2\<rparr> [12] 0
       = (\<lparr>Returned = False, CallerBatch = [12], CallerBatchStart = 0, LocalBatchStart = 0\<rparr>,
          \<lparr>pa_Lanes = [[], []], pa_Progress = 3\<rparr>)"
      by (simp add: ParallelAccumulator_Advance_def Let_def)
    show ?thesis
      by (simp add: numeral_3_eq_3 s1 s2 s3)
  qed
  show "LocalBatchStart (fst (ParallelAccumulator_Advance
         \<lparr>pa_Lanes = [[], [12 :: nat]], pa_Progress = 1\<rparr> [10, 11] 0)) = 0"
    by (simp add: ParallelAccumulator_Advance_def Let_def sum_prior_sizes.simps)
qed

subsection \<open>Task chains\<close>

lemma BatonPass_step:
  assumes "Nodes s p = Some n" and "NextTask n = Some q" and "Nodes s q = Some m" and "p \<noteq> q"
  shows "BatonPass p s =
           Some \<lparr>Nodes = (Nodes s)(q \<mapsto> m\<lparr>IntermediaryData := IntermediaryData n\<rparr>,
                                  p \<mapsto> n\<lparr>IntermediaryData := IntermediaryData m, NextTask := None\<rparr>),
                 ParallelQueue = ParallelQueue s @ [q]\<rparr>"
  using assms by (simp add: BatonPass_def upd_node_def Let_def)

lemma is_chain_unchanged:
  "is_chain s ps \<Longrightarrow> \<forall>x \<in> set ps. Nodes s' x = Nodes s x \<Longrightarrow> is_chain s' ps"
  by (induction s ps rule: is_chain.induct) (auto split: option.splits)

lemma holds_payload_unchanged:
  "Nodes s' x = Nodes s x \<Longrightarrow> holds_payload s' x = holds_payload s x"
  by (simp add: holds_payload_def)

lemma BatonPass_chain:
  assumes ch: "is_chain s (p # q # ps)" and di: "distinct (p # q # ps)"
    and pay: "payload_at_head s (p # q # ps)"
  shows "\<exists>s' n m. BatonPass p s = Some s' \<and> Nodes s p = Some n \<and> Nodes s' q = Some m
           \<and> IntermediaryData m = IntermediaryData n
           \<and> ParallelQueue s' = ParallelQueue s @ [q]
           \<and> is_chain s' (q # ps) \<and> payload_at_head s' (q # ps)
           \<and> \<not> holds_payload s' p \<and> is_chain s' [p]"
proof -
  from ch obtain n where n: "Nodes s p = Some n" "NextTask n = Some q" and ch': "is_chain s (q # ps)"
    by (auto split: option.splits)
  from ch' obtain m where m: "Nodes s q = Some m"
    by (cases ps) (auto split: option.splits)
  from di have pq: "p \<noteq> q" by simp
  define s' where "s' = \<lparr>Nodes = (Nodes s)(q \<mapsto> m\<lparr>IntermediaryData := IntermediaryData n\<rparr>,
                                  p \<mapsto> n\<lparr>IntermediaryData := IntermediaryData m, NextTask := None\<rparr>),
                 ParallelQueue = ParallelQueue s @ [q]\<rparr>"
  have bp: "BatonPass p s = Some s'" unfolding s'_def by (rule BatonPass_step [OF n m pq])
  have Np: "Nodes s' p = Some (n\<lparr>IntermediaryData := IntermediaryData m, NextTask := None\<rparr>)"
    by (simp add: s'_def)
  have Nq: "Nodes s' q = Some (m\<lparr>IntermediaryData := IntermediaryData n\<rparr>)"
    using pq by (simp add: s'_def)
  have Nx: "Nodes s' x = Nodes s x" if "x \<noteq> p" "x \<noteq> q" for x
    using that by (simp add: s'_def)
  have Q: "ParallelQueue s' = ParallelQueue s @ [q]" by (simp add: s'_def)
  from pay n m have hp: "IntermediaryData n \<noteq> None" and hq: "IntermediaryData m = None"
    and rest: "list_all (\<lambda>x. \<not> holds_payload s x) ps"
    by (simp_all add: payload_at_head_def holds_payload_def)
  have same: "\<forall>x \<in> set ps. Nodes s' x = Nodes s x"
  proof
    fix x assume "x \<in> set ps"
    with di have "x \<noteq> p" "x \<noteq> q" by auto
    then show "Nodes s' x = Nodes s x" by (rule Nx)
  qed
  have c1: "is_chain s' (q # ps)"
  proof (cases ps)
    case Nil
    with ch' m have "NextTask m = None" by simp
    with Nil Nq show ?thesis by simp
  next
    case (Cons r rs)
    with ch' m have nm: "NextTask m = Some r" and tl: "is_chain s (r # rs)" by simp_all
    have "\<forall>x \<in> set (r # rs). Nodes s' x = Nodes s x" using same unfolding Cons .
    with tl have "is_chain s' (r # rs)" by (rule is_chain_unchanged)
    with nm Nq show ?thesis unfolding Cons by simp
  qed
  have "list_all (\<lambda>x. \<not> holds_payload s' x) ps"
    unfolding list_all_iff
  proof
    fix x assume x: "x \<in> set ps"
    with rest have "\<not> holds_payload s x" by (simp add: list_all_iff)
    moreover from x same have "Nodes s' x = Nodes s x" by blast
    then have "holds_payload s' x = holds_payload s x" by (rule holds_payload_unchanged)
    ultimately show "\<not> holds_payload s' x" by simp
  qed
  moreover have "holds_payload s' q" using hp Nq by (simp add: holds_payload_def)
  ultimately have c2: "payload_at_head s' (q # ps)" by (simp add: payload_at_head_def)
  have c3: "\<not> holds_payload s' p" using hq Np by (simp add: holds_payload_def)
  have c4: "is_chain s' [p]" using Np by simp
  have c5: "IntermediaryData (m\<lparr>IntermediaryData := IntermediaryData n\<rparr>) = IntermediaryData n" by simp
  from bp n(1) Nq c5 Q c1 c2 c3 c4 show ?thesis by blast
qed


lemma three_stage_chain_eq:
  "three_stage_chain = Some (\<lparr>Head = Some 0, Tail = Some 2\<rparr>, three_stage_state)"
  by (simp add: three_stage_chain_def three_stage_state_def Link_def new_ParallelTaskChain_def
      empty_chain_state_def fun_upd_twist)

text \<open>
  C7 (as amended). In a chain of distinct nodes in which only the head holds the payload,
  \<^verbatim>\<open>BatonPass()\<close> on the head succeeds, enqueues the successor, and leaves a chain that starts
  at the successor and again holds the payload at its head only: the successor now holds
  the very payload the head held, the old head holds none and has no successor. In general
  \<^verbatim>\<open>BatonPass()\<close> exchanges the payload slots of a node and its successor and clears the
  link, and does nothing on a node without successor.
\<close>

theorem BatonPass_moves_payload:
  "(is_chain s (p # q # ps) \<and> distinct (p # q # ps) \<and> payload_at_head s (p # q # ps) \<longrightarrow>
      (\<exists>s' n m. BatonPass p s = Some s' \<and> Nodes s p = Some n \<and> Nodes s' q = Some m
           \<and> IntermediaryData m = IntermediaryData n
           \<and> ParallelQueue s' = ParallelQueue s @ [q]
           \<and> is_chain s' (q # ps) \<and> payload_at_head s' (q # ps)
           \<and> \<not> holds_payload s' p \<and> is_chain s' [p]))
   \<and> (Nodes s p = Some n \<and> NextTask n = Some q \<and> Nodes s q = Some m \<and> p \<noteq> q \<longrightarrow>
        BatonPass p s =
           Some \<lparr>Nodes = (Nodes s)(q \<mapsto> m\<lparr>IntermediaryData := IntermediaryData n\<rparr>,
                                  p \<mapsto> n\<lparr>IntermediaryData := IntermediaryData m, NextTask := None\<rparr>),
                 ParallelQueue = ParallelQueue s @ [q]\<rparr>)
   \<and> (Nodes s p = Some n \<and> NextTask n = None \<longrightarrow> BatonPass p s = Some s)"
proof (intro conjI impI)
  assume "is_chain s (p # q # ps) \<and> distinct (p # q # ps) \<and> payload_at_head s (p # q # ps)"
  then show "\<exists>s' n m. BatonPass p s = Some s' \<and> Nodes s p = Some n \<and> Nodes s' q = Some m
           \<and> IntermediaryData m = IntermediaryData n
           \<and> ParallelQueue s' = ParallelQueue s @ [q]
           \<and> is_chain s' (q # ps) \<and> payload_at_head s' (q # ps)
           \<and> \<not> holds_payload s' p \<and> is_chain s' [p]"
    by (intro BatonPass_chain) simp_all
next
  assume "Nodes s p = Some n \<and> NextTask n = Some q \<and> Nodes s q = Some m \<and> p \<noteq> q"
  then show "BatonPass p s =
           Some \<lparr>Nodes = (Nodes s)(q \<mapsto> m\<lparr>IntermediaryData := IntermediaryData n\<rparr>,
                                  p \<mapsto> n\<lparr>IntermediaryData := IntermediaryData m, NextTask := None\<rparr>),
                 ParallelQueue = ParallelQueue s @ [q]\<rparr>"
    by (intro BatonPass_step) simp_all
next
  assume "Nodes s p = Some n \<and> NextTask n = None"
  then show "BatonPass p s = Some s" by (simp add: BatonPass_def)
qed

lemma BatonPass_three: "BatonPass 0 three_stage_state = Some passed_state"
  by (simp add: BatonPass_def three_stage_state_def passed_state_def upd_node_def Let_def fun_upd_twist)

theorem BatonPass_moves_payload_witness:
  "BatonPass 0 three_stage_state = Some passed_state
   \<and> is_chain passed_state [1, 2] \<and> payload_at_head passed_state [1, 2]
   \<and> \<not> holds_payload passed_state 0 \<and> is_chain passed_state [0]"
proof -
  have "is_chain three_stage_state (0 # 1 # [2]) \<and> distinct (0 # 1 # [2::nat])
      \<and> payload_at_head three_stage_state (0 # 1 # [2])"
    by (simp add: three_stage_state_def payload_at_head_def holds_payload_def)
  with BatonPass_moves_payload [of three_stage_state 0 1 "[2]"]
  obtain s' where "BatonPass 0 three_stage_state = Some s'"
    and "is_chain s' [1, 2]" and "payload_at_head s' [1, 2]"
    and "\<not> holds_payload s' 0" and "is_chain s' [0]"
    by blast
  then show ?thesis by (simp add: BatonPass_three)
qed

text \<open>
  C7 as stated fails for the nodes that are not at the head: in the three-stage pipeline
  neither the second stage nor its successor holds the payload while the first stage runs;
  and after the baton pass the first stage holds no payload and has no successor.
\<close>

theorem chain_node_neither_holds:
  "three_stage_chain = Some (\<lparr>Head = Some 0, Tail = Some 2\<rparr>, three_stage_state)
   \<and> \<not> exactly_one_holds three_stage_state 1
   \<and> BatonPass 0 three_stage_state = Some passed_state
   \<and> \<not> exactly_one_holds passed_state 0"
  by (simp add: three_stage_chain_eq BatonPass_three)
    (simp add: exactly_one_holds_def holds_payload_def successor_holds_payload_def
      three_stage_state_def passed_state_def)

subsection \<open>UpdateColors\<close>


lemma apply_writes_length [simp]: "length (apply_writes ws Cs) = length Cs"
  unfolding apply_writes_def by (induction ws arbitrary: Cs) simp_all

lemma apply_writes_append: "apply_writes (ws @ vs) Cs = apply_writes vs (apply_writes ws Cs)"
  by (simp add: apply_writes_def)

lemma apply_writes_nth:
  "v < length Cs \<Longrightarrow>
   apply_writes ws Cs ! v = (case map_of (rev ws) v of None \<Rightarrow> Cs ! v | Some c \<Rightarrow> c)"
proof (induction ws rule: rev_induct)
  case Nil
  then show ?case by (simp add: apply_writes_def)
next
  case (snoc w ws)
  have "apply_writes (ws @ [w]) Cs = (apply_writes ws Cs)[fst w := snd w]"
    by (simp add: apply_writes_def)
  with snoc show ?case
    by (cases w) (simp add: nth_list_update)
qed

lemma write_group_colors_eq:
  assumes "IndexStart g + IndexRange g \<le> length Vertices"
    and "IndexStart g + IndexRange g \<le> 2 ^ 64"
    and "IndexRange g \<le> length NewColors"
    and "list_all (\<lambda>i. Vertices ! (IndexStart g + i) < length Cs) [0 ..< IndexRange g]"
    and "k \<le> IndexRange g"
  shows "write_group_colors Vertices g NewColors k Cs
       = Some (apply_writes (map (\<lambda>i. (Vertices ! (IndexStart g + i), NewColors ! i)) [k ..< IndexRange g]) Cs)"
  using assms
proof (induction Vertices g NewColors k Cs rule: write_group_colors.induct)
  case (1 Vertices Batch NewColors RelativeIndex Cs)
  show ?case
  proof (cases "RelativeIndex < IndexRange Batch")
    case False
    then show ?thesis by (subst write_group_colors.simps) (simp add: apply_writes_def)
  next
    case True
    let ?pos = "(IndexStart Batch + RelativeIndex) mod 2 ^ 64"
    have pos: "?pos = IndexStart Batch + RelativeIndex" using True "1.prems"(2) by simp
    have inb: "?pos < length Vertices \<and> RelativeIndex < length NewColors"
      using True "1.prems" pos by simp
    have vi: "Vertices ! ?pos < length Cs"
      using True "1.prems"(4) pos by (simp add: list_all_iff)
    let ?Cs = "Cs[Vertices ! ?pos := NewColors ! RelativeIndex]"
    have "list_all (\<lambda>i. Vertices ! (IndexStart Batch + i) < length ?Cs) [0 ..< IndexRange Batch]"
      using "1.prems"(4) by simp
    then have IH: "write_group_colors Vertices Batch NewColors (RelativeIndex + 1) ?Cs
        = Some (apply_writes (map (\<lambda>i. (Vertices ! (IndexStart Batch + i), NewColors ! i))
                 [RelativeIndex + 1 ..< IndexRange Batch]) ?Cs)"
      using True "1.prems"(1,2,3)
      by (intro "1.IH" [OF True refl inb refl vi]) simp_all
    have "write_group_colors Vertices Batch NewColors RelativeIndex Cs
        = write_group_colors Vertices Batch NewColors (RelativeIndex + 1) ?Cs"
      using True inb vi by (subst write_group_colors.simps) (simp only: Let_def if_True simp_thms)
    also note IH
    finally show ?thesis
      using True pos by (simp add: upt_rec [of RelativeIndex] apply_writes_def)
  qed
qed


lemma update_groups_eq:
  assumes "list_all (group_in_bounds Slots (length Cs)) gs"
  shows "update_groups Slots gs Cs
       = Some (map (\<lambda>g. g\<lparr>Colors := []\<rparr>) gs, apply_writes (all_writes Slots gs) Cs)"
  using assms
proof (induction gs arbitrary: Cs)
  case Nil
  then show ?case by (simp add: all_writes_def apply_writes_def)
next
  case (Cons g gs)
  from Cons.prems have rest: "list_all (group_in_bounds Slots (length Cs)) gs"
    and g: "group_in_bounds Slots (length Cs) g" by simp_all
  show ?case
  proof (cases "Colors g = []")
    case True
    then have "group_writes Slots g = []" by (simp add: group_writes_def)
    then have "all_writes Slots (g # gs) = all_writes Slots gs" by (simp add: all_writes_def)
    with True Cons.IH [OF rest] show ?thesis by (simp add: Let_def)
  next
    case False
    let ?V = "Slots ! VertexGroup g"
    from g False have vg: "VertexGroup g < length Slots"
      and b1: "IndexStart g + IndexRange g \<le> length ?V"
      and b2: "IndexStart g + IndexRange g \<le> 2 ^ 64"
      and b3: "IndexRange g \<le> length (Colors g)"
      and b4: "list_all (\<lambda>i. ?V ! (IndexStart g + i) < length Cs) [0 ..< IndexRange g]"
      by (simp_all add: group_in_bounds_def)
    let ?Cs = "apply_writes (group_writes Slots g) Cs"
    have w: "write_group_colors ?V g (Colors g) 0 Cs = Some ?Cs"
      using write_group_colors_eq [OF b1 b2 b3 b4, of 0] False by (simp add: group_writes_def)
    have "list_all (group_in_bounds Slots (length ?Cs)) gs" using rest by simp
    from Cons.IH [OF this]
    have r: "update_groups Slots gs ?Cs
        = Some (map (\<lambda>g. g\<lparr>Colors := []\<rparr>) gs, apply_writes (all_writes Slots gs) ?Cs)" .
    have "all_writes Slots (g # gs) = group_writes Slots g @ all_writes Slots gs"
      by (simp add: all_writes_def)
    then have "apply_writes (all_writes Slots (g # gs)) Cs = apply_writes (all_writes Slots gs) ?Cs"
      by (simp add: apply_writes_append)
    with False vg w r show ?thesis by (simp add: Let_def)
  qed
qed

lemma map_of_rev_None: "map_of (rev ws) v = None \<longleftrightarrow> v \<notin> fst ` set ws"
  by (simp add: map_of_eq_None_iff)

lemma map_of_rev_distinct:
  "distinct (map fst ws) \<Longrightarrow> (v, c) \<in> set ws \<Longrightarrow> map_of (rev ws) v = Some c"
  by (rule map_of_is_SomeI) (simp_all add: rev_map [symmetric])

lemma all_writes_in_bounds:
  assumes "list_all (group_in_bounds Slots n) gs" and "w \<in> set (all_writes Slots gs)"
  shows "fst w < n"
proof -
  from assms(2) obtain g where g: "g \<in> set gs" and w: "w \<in> set (group_writes Slots g)"
    by (auto simp: all_writes_def)
  from w have ne: "Colors g \<noteq> []" by (auto simp: group_writes_def split: if_splits)
  with w obtain i where i: "i < IndexRange g" and fw: "fst w = (Slots ! VertexGroup g) ! (IndexStart g + i)"
    by (auto simp: group_writes_def)
  from assms(1) g have "group_in_bounds Slots n g" by (simp add: list_all_iff)
  with ne have "list_all (\<lambda>i. (Slots ! VertexGroup g) ! (IndexStart g + i) < n) [0 ..< IndexRange g]"
    by (simp add: group_in_bounds_def)
  with i fw show ?thesis by (simp add: list_all_iff)
qed

text \<open>
  C8. When every access of \<^verbatim>\<open>UpdateColors\<close> is in range, the call returns, and afterwards
  every group's pending buffer is empty (nothing else of a group changes); the color array
  is the old one with the writes of the groups with a non-empty pending buffer applied in
  order: every entry that no such write addresses is unchanged, every addressed entry
  holds the color of the last write to it, and when no index is addressed twice, pending
  color \<open>i\<close> of each such group is at index \<open>Vertices[IndexStart + i]\<close>.
\<close>

theorem UpdateColors_writes_pending:
  assumes "list_all (group_in_bounds (MaterialSlots m) (length (Model_Colors m))) (ColoringGroups m)"
  shows "\<exists>m'. UpdateColors m NewCameraOrigin = Some m'
     \<and> ColoringGroups m' = map (\<lambda>g. g\<lparr>Colors := []\<rparr>) (ColoringGroups m)
     \<and> list_all (\<lambda>g. Colors g = []) (ColoringGroups m')
     \<and> Model_Colors m' = apply_writes (all_writes (MaterialSlots m) (ColoringGroups m)) (Model_Colors m)
     \<and> length (Model_Colors m') = length (Model_Colors m)
     \<and> (\<forall>v < length (Model_Colors m).
           v \<notin> fst ` set (all_writes (MaterialSlots m) (ColoringGroups m)) \<longrightarrow>
           Model_Colors m' ! v = Model_Colors m ! v)
     \<and> (\<forall>v < length (Model_Colors m). \<forall>c.
           map_of (rev (all_writes (MaterialSlots m) (ColoringGroups m))) v = Some c \<longrightarrow>
           Model_Colors m' ! v = c)
     \<and> (distinct (map fst (all_writes (MaterialSlots m) (ColoringGroups m))) \<longrightarrow>
          (\<forall>w \<in> set (all_writes (MaterialSlots m) (ColoringGroups m)).
             Model_Colors m' ! fst w = snd w))"
proof -
  let ?ws = "all_writes (MaterialSlots m) (ColoringGroups m)"
  let ?gs = "map (\<lambda>g. g\<lparr>Colors := []\<rparr>) (ColoringGroups m)"
  let ?Cs = "apply_writes ?ws (Model_Colors m)"
  let ?m' = "m\<lparr>AtomicCameraOrigin := NewCameraOrigin, ColoringGroups := ?gs, Model_Colors := ?Cs\<rparr>"
  have u: "UpdateColors m NewCameraOrigin = Some ?m'"
    using update_groups_eq [OF assms] by (simp add: UpdateColors_def)
  have e: "list_all (\<lambda>g. Colors g = []) ?gs" by (simp add: list_all_iff)
  have n: "?Cs ! v = (case map_of (rev ?ws) v of None \<Rightarrow> Model_Colors m ! v | Some c \<Rightarrow> c)"
    if "v < length (Model_Colors m)" for v
    using that by (rule apply_writes_nth)
  have a: "\<forall>v < length (Model_Colors m). v \<notin> fst ` set ?ws \<longrightarrow> ?Cs ! v = Model_Colors m ! v"
    using n by (simp add: map_of_rev_None [symmetric])
  have b: "\<forall>v < length (Model_Colors m). \<forall>c. map_of (rev ?ws) v = Some c \<longrightarrow> ?Cs ! v = c"
    using n by simp
  have c: "distinct (map fst ?ws) \<longrightarrow> (\<forall>w \<in> set ?ws. ?Cs ! fst w = snd w)"
  proof (intro impI ballI)
    fix w assume d: "distinct (map fst ?ws)" and w: "w \<in> set ?ws"
    have l: "fst w < length (Model_Colors m)" by (rule all_writes_in_bounds [OF assms w])
    from w have "(fst w, snd w) \<in> set ?ws" by simp
    from map_of_rev_distinct [OF d this] n [OF l] show "?Cs ! fst w = snd w" by simp
  qed
  show ?thesis
    using u e a b c by (intro exI [of _ ?m']) simp
qed


theorem UpdateColors_writes_pending_witness:
  "UpdateColors example_model () =
     Some \<lparr>AtomicCameraOrigin = (), Model_Colors = [11, 1, 10, 3],
      ColoringGroups =
        [\<lparr>VertexGroup = 0, IndexStart = 0, IndexRange = 2, Colors = [], LastRepaint = 0\<rparr>,
         \<lparr>VertexGroup = 0, IndexStart = 2, IndexRange = 2, Colors = [], LastRepaint = 0\<rparr>],
      MaterialSlots = [[2, 0, 3, 1]]\<rparr>
   \<and> all_writes (MaterialSlots example_model) (ColoringGroups example_model) = [(2, 10), (0, 11)]"
proof -
  have b: "list_all (group_in_bounds (MaterialSlots example_model) (length (Model_Colors example_model)))
      (ColoringGroups example_model)"
    by (simp add: example_model_def group_in_bounds_def upt_rec)
  have w: "all_writes (MaterialSlots example_model) (ColoringGroups example_model) = [(2, 10), (0, 11)]"
    by (simp add: example_model_def all_writes_def group_writes_def upt_rec)
  from UpdateColors_writes_pending [OF b, of "()"] obtain m' where
    u: "UpdateColors example_model () = Some m'"
    and g: "ColoringGroups m' = map (\<lambda>g. g\<lparr>Colors := []\<rparr>) (ColoringGroups example_model)"
    and c: "Model_Colors m' = apply_writes
        (all_writes (MaterialSlots example_model) (ColoringGroups example_model)) (Model_Colors example_model)"
    by blast
  from u have "MaterialSlots m' = MaterialSlots example_model"
    by (auto simp: UpdateColors_def split: option.splits)
  with g c w have "m' = \<lparr>AtomicCameraOrigin = (), Model_Colors = [11, 1, 10, 3],
      ColoringGroups =
        [\<lparr>VertexGroup = 0, IndexStart = 0, IndexRange = 2, Colors = [], LastRepaint = 0\<rparr>,
         \<lparr>VertexGroup = 0, IndexStart = 2, IndexRange = 2, Colors = [], LastRepaint = 0\<rparr>],
      MaterialSlots = [[2, 0, 3, 1]]\<rparr>"
    by (cases m') (simp add: example_model_def apply_writes_def)
  with u w show ?thesis by simp
qed

subsection \<open>Drawable cache\<close>


lemma find_live_None:
  "find_live C Key sc = None \<longleftrightarrow> (\<forall>Entry \<in> set C. fst Entry = Key \<longrightarrow> sc (snd Entry) = 0)"
  by (induction C) auto

lemma find_live_Some:
  "find_live C Key sc = Some d \<Longrightarrow> (Key, d) \<in> set C \<and> 0 < sc d"
  by (induction C) (auto split: if_splits)

lemma find_live_unique:
  "distinct (map fst (filter (\<lambda>Entry. 0 < sc (snd Entry)) C)) \<Longrightarrow> (Key, d) \<in> set C \<Longrightarrow> 0 < sc d \<Longrightarrow>
   find_live C Key sc = Some d"
proof (induction C)
  case Nil
  then show ?case by simp
next
  case (Cons e C)
  show ?case
  proof (cases "e = (Key, d)")
    case True
    with Cons.prems show ?thesis by simp
  next
    case False
    with Cons.prems have in_C: "(Key, d) \<in> set C" by simp
    have d': "distinct (map fst (filter (\<lambda>Entry. 0 < sc (snd Entry)) C))"
      using Cons.prems(1) by (simp split: if_splits)
    have IH: "find_live C Key sc = Some d" by (rule Cons.IH [OF d' in_C Cons.prems(3)])
    show ?thesis
    proof (cases "fst e = Key \<and> 0 < sc (snd e)")
      case True
      then have "Key \<notin> fst ` set (filter (\<lambda>Entry. 0 < sc (snd Entry)) C)"
        using Cons.prems(1) by auto
      moreover have "(Key, d) \<in> set (filter (\<lambda>Entry. 0 < sc (snd Entry)) C)"
        using in_C Cons.prems(3) by simp
      then have "fst (Key, d) \<in> fst ` set (filter (\<lambda>Entry. 0 < sc (snd Entry)) C)"
        by (rule imageI)
      ultimately have False by simp
      then show ?thesis ..
    next
      case False
      then show ?thesis using IH by auto
    qed
  qed
qed


lemma erase_first_expired_subset: "set (erase_first_expired C sc) \<subseteq> set C"
  by (induction C) auto

lemma erase_first_expired_live:
  "e \<in> set C \<Longrightarrow> 0 < sc (snd e) \<Longrightarrow> e \<in> set (erase_first_expired C sc)"
  by (induction C) auto

lemma erase_first_expired_distinct:
  "distinct (map snd C) \<Longrightarrow> distinct (map snd (erase_first_expired C sc))"
proof (induction C)
  case Nil
  then show ?case by simp
next
  case (Cons e C)
  have "snd e \<notin> snd ` set (erase_first_expired C sc)"
    using Cons.prems erase_first_expired_subset [of C sc] by auto
  with Cons show ?case by simp
qed

lemma erase_first_expired_filter:
  "filter (\<lambda>Entry. 0 < sc (snd Entry)) (erase_first_expired C sc)
     = filter (\<lambda>Entry. 0 < sc (snd Entry)) C"
  by (induction C) auto

lemma live_entries_cong:
  assumes "DrawableCache s' = DrawableCache s"
    and "\<And>d. (0 < StrongCount s' d) = (0 < StrongCount s d)"
  shows "live_entries s' = live_entries s"
  using assms by (simp add: live_entries_def)

lemma cache_inv_initial: "cache_inv initial_cache"
  by (simp add: cache_inv_def initial_cache_def one_live_per_key_def live_entries_def)

lemma cache_inv_bump:
  assumes inv: "cache_inv s" and live: "0 < StrongCount s d"
  shows "cache_inv (s\<lparr>StrongCount := (StrongCount s)(d := StrongCount s d + 1)\<rparr>)"
proof -
  let ?s = "s\<lparr>StrongCount := (StrongCount s)(d := StrongCount s d + 1)\<rparr>"
  have le: "live_entries ?s = live_entries s"
    by (rule live_entries_cong) (use live in auto)
  have "\<not> NextDrawable s \<le> d" using inv live by (auto simp: cache_inv_def)
  then have "\<forall>d'. NextDrawable ?s \<le> d' \<longrightarrow> StrongCount ?s d' = 0"
    using inv by (simp add: cache_inv_def)
  moreover have "one_live_per_key ?s"
    using inv by (simp only: one_live_per_key_def le) (simp add: cache_inv_def one_live_per_key_def)
  ultimately show ?thesis using inv unfolding cache_inv_def by simp
qed

lemma cache_inv_construct:
  assumes "cache_inv s"
  shows "cache_inv (snd (SDFModel_new Key s))"
proof (cases "find_live (DrawableCache s) Key (StrongCount s)")
  case (Some d)
  then have live: "0 < StrongCount s d" and "(Key, d) \<in> set (DrawableCache s)"
    using find_live_Some by blast+
  then have lt: "d < NextDrawable s" using assms by (auto simp: cache_inv_def)
  have "cache_inv (s\<lparr>StrongCount := (StrongCount s)(d := StrongCount s d + 1)\<rparr>)"
    using assms live by (rule cache_inv_bump)
  with Some show ?thesis by (simp add: SDFModel_new_def)
next
  case None
  let ?d = "NextDrawable s"
  let ?s = "s\<lparr>DrawableCache := DrawableCache s @ [(Key, ?d)],
              StrongCount := (StrongCount s)(?d := 1),
              NextDrawable := ?d + 1,
              Populated := Populated s @ [?d]\<rparr>"
  from assms have di: "distinct (map snd (DrawableCache s))"
    and lt: "\<forall>Entry \<in> set (DrawableCache s). snd Entry < ?d"
    and fr: "\<forall>d. ?d \<le> d \<longrightarrow> StrongCount s d = 0"
    and po: "Populated s = [0 ..< ?d]"
    and ol: "distinct (map fst (live_entries s))"
    by (simp_all add: cache_inv_def one_live_per_key_def)
  have f: "filter (\<lambda>Entry. 0 < ((StrongCount s)(?d := 1)) (snd Entry)) (DrawableCache s) = live_entries s"
    unfolding live_entries_def using lt by (intro filter_cong) auto
  have "live_entries ?s
      = filter (\<lambda>Entry. 0 < ((StrongCount s)(?d := 1)) (snd Entry)) (DrawableCache s) @ [(Key, ?d)]"
    by (simp add: live_entries_def del: fun_upd_apply) simp
  then have le: "live_entries ?s = live_entries s @ [(Key, ?d)]" by (simp only: f)
  have nk: "Key \<notin> fst ` set (live_entries s)"
    using None by (auto simp: find_live_None live_entries_def)
  have "distinct (map snd (DrawableCache ?s))" using di lt by auto
  moreover have "\<forall>Entry \<in> set (DrawableCache ?s). snd Entry < NextDrawable ?s"
    using lt by auto
  moreover have "\<forall>d. NextDrawable ?s \<le> d \<longrightarrow> StrongCount ?s d = 0" using fr by simp
  moreover have "Populated ?s = [0 ..< NextDrawable ?s]" using po by simp
  moreover have "one_live_per_key ?s" unfolding one_live_per_key_def le using ol nk by simp
  ultimately have "cache_inv ?s" unfolding cache_inv_def by blast
  with None show ?thesis by (simp add: SDFModel_new_def Let_def)
qed

lemma cache_inv_acquire: "cache_inv s \<Longrightarrow> cache_inv (acquire d s)"
  by (cases "0 < StrongCount s d") (auto simp only: acquire_def if_True if_False intro: cache_inv_bump)

lemma distinct_map_filter_sub:
  "distinct (map f (filter P xs)) \<Longrightarrow> (\<And>x. Q x \<Longrightarrow> P x) \<Longrightarrow> distinct (map f (filter Q xs))"
proof (induction xs)
  case Nil
  then show ?case by simp
next
  case (Cons x xs)
  then show ?case by (auto split: if_splits)
qed

lemma one_live_per_key_mono:
  assumes "one_live_per_key s" and "DrawableCache s' = DrawableCache s"
    and "\<And>d. 0 < StrongCount s' d \<Longrightarrow> 0 < StrongCount s d"
  shows "one_live_per_key s'"
proof -
  have "distinct (map fst (filter (\<lambda>Entry. 0 < StrongCount s' (snd Entry)) (DrawableCache s)))"
  proof (rule distinct_map_filter_sub)
    show "distinct (map fst (filter (\<lambda>Entry. 0 < StrongCount s (snd Entry)) (DrawableCache s)))"
      using assms(1) by (simp add: one_live_per_key_def live_entries_def)
  qed (rule assms(3))
  then show ?thesis by (simp add: one_live_per_key_def live_entries_def assms(2))
qed

lemma cache_inv_release: "cache_inv s \<Longrightarrow> cache_inv (release d s)"
proof -
  assume inv: "cache_inv s"
  have upd: "cache_inv (s\<lparr>StrongCount := (StrongCount s)(d := n), DeleteQueue := q\<rparr>)"
    if n: "n \<le> StrongCount s d" for n q
  proof -
    let ?s = "s\<lparr>StrongCount := (StrongCount s)(d := n), DeleteQueue := q\<rparr>"
    have "one_live_per_key ?s"
    proof (rule one_live_per_key_mono [of s])
      show "one_live_per_key s" using inv by (simp add: cache_inv_def)
      show "DrawableCache ?s = DrawableCache s" by simp
      show "0 < StrongCount s d'" if "0 < StrongCount ?s d'" for d'
        using that n by (cases "d' = d") simp_all
    qed
    moreover have "\<forall>d'. NextDrawable ?s \<le> d' \<longrightarrow> StrongCount ?s d' = 0"
      using inv n by (auto simp: cache_inv_def)
    ultimately show ?thesis using inv by (simp add: cache_inv_def)
  qed
  have same: "cache_inv (s\<lparr>StrongCount := (StrongCount s)(d := n)\<rparr>)" if "n \<le> StrongCount s d" for n
    using upd [OF that, of "DeleteQueue s"] by simp
  show ?thesis
    using inv upd [of 0 "DeleteQueue s + 1"] same [of "StrongCount s d - 1"]
    by (simp add: release_def)
qed

lemma cache_inv_prune: "cache_inv s \<Longrightarrow> cache_inv (PruneStaleDrawableFromCache s)"
proof -
  assume inv: "cache_inv s"
  let ?C = "erase_first_expired (DrawableCache s) (StrongCount s)"
  have "distinct (map snd ?C)"
    using inv by (intro erase_first_expired_distinct) (simp add: cache_inv_def)
  moreover have "\<forall>Entry \<in> set ?C. snd Entry < NextDrawable s"
    using inv erase_first_expired_subset [of "DrawableCache s" "StrongCount s"]
    unfolding cache_inv_def by blast
  moreover have "distinct (map fst (filter (\<lambda>Entry. 0 < StrongCount s (snd Entry)) ?C))"
    using inv by (simp only: erase_first_expired_filter) (simp add: cache_inv_def one_live_per_key_def live_entries_def)
  ultimately show ?thesis
    using inv
    by (simp add: cache_inv_def PruneStaleDrawableFromCache_def one_live_per_key_def live_entries_def)
qed

lemma cache_inv_step: "cache_inv s \<Longrightarrow> cache_inv (cache_step s e)"
proof (cases e)
  case (EvConstruct k)
  assume "cache_inv s" with EvConstruct show ?thesis by (simp add: cache_inv_construct)
next
  case (EvAcquire d)
  assume "cache_inv s" with EvAcquire show ?thesis by (simp add: cache_inv_acquire)
next
  case (EvRelease d)
  assume "cache_inv s" with EvRelease show ?thesis by (simp add: cache_inv_release)
next
  case EvRunDelete
  assume "cache_inv s"
  then have "cache_inv (PruneStaleDrawableFromCache s)" by (rule cache_inv_prune)
  then have "cache_inv ((PruneStaleDrawableFromCache s)\<lparr>DeleteQueue := DeleteQueue s - 1\<rparr>)"
    by (simp add: cache_inv_def one_live_per_key_def live_entries_def)
  with \<open>cache_inv s\<close> EvRunDelete show ?thesis by simp
qed

lemma cache_inv_run: "cache_inv s \<Longrightarrow> cache_inv (cache_run s es)"
  unfolding cache_run_def by (induction es arbitrary: s) (simp_all add: cache_inv_step)


lemma cache_run_snoc: "cache_run s (es @ [e]) = cache_step (cache_run s es) e"
  by (simp add: cache_run_def)

lemma cache_inv_reachable: "cache_inv (cache_run initial_cache es)"
  by (rule cache_inv_run [OF cache_inv_initial])

lemma NextDrawable_step: "NextDrawable s \<le> NextDrawable (cache_step s e)"
  by (cases e)
    (auto simp: SDFModel_new_def acquire_def release_def PruneStaleDrawableFromCache_def Let_def
      split: option.splits)

lemma no_revival_step:
  assumes "cache_inv s" and "d < NextDrawable s" and "0 < StrongCount (cache_step s e) d"
  shows "0 < StrongCount s d"
proof (cases e)
  case (EvConstruct k)
  with assms(2,3) show ?thesis
    by (auto simp: SDFModel_new_def Let_def split: option.splits if_splits dest: find_live_Some)
next
  case (EvAcquire x)
  with assms(3) show ?thesis by (auto simp: acquire_def split: if_splits)
next
  case (EvRelease x)
  with assms(3) show ?thesis by (auto simp: release_def split: if_splits)
next
  case EvRunDelete
  with assms(3) show ?thesis by (auto simp: PruneStaleDrawableFromCache_def split: if_splits)
qed

lemma entry_survives_step:
  assumes "(k, d) \<in> set (DrawableCache s)" and "0 < StrongCount s d"
  shows "(k, d) \<in> set (DrawableCache (cache_step s e))"
proof (cases e)
  case (EvConstruct x)
  with assms(1) show ?thesis by (auto simp: SDFModel_new_def Let_def split: option.splits)
next
  case (EvAcquire x)
  with assms(1) show ?thesis by (simp add: acquire_def)
next
  case (EvRelease x)
  with assms(1) show ?thesis by (simp add: release_def)
next
  case EvRunDelete
  have "(k, d) \<in> set (erase_first_expired (DrawableCache s) (StrongCount s))"
    using assms by (intro erase_first_expired_live) simp_all
  with assms(1) EvRunDelete show ?thesis by (simp add: PruneStaleDrawableFromCache_def)
qed

lemma entry_survives_run:
  assumes "cache_inv s" and "(k, d) \<in> set (DrawableCache s)"
    and "0 < StrongCount (cache_run s es) d"
  shows "(k, d) \<in> set (DrawableCache (cache_run s es))"
  using assms(3)
proof (induction es rule: rev_induct)
  case Nil
  with assms(2) show ?case by (simp add: cache_run_def)
next
  case (snoc e es)
  let ?s = "cache_run s es"
  have inv: "cache_inv ?s" by (rule cache_inv_run [OF assms(1)])
  have "d < NextDrawable s" using assms(1,2) by (auto simp: cache_inv_def)
  moreover have "NextDrawable s \<le> NextDrawable ?s"
    unfolding cache_run_def
  proof (induction es rule: rev_induct)
    case Nil
    then show ?case by simp
  next
    case (snoc x xs)
    then show ?case using NextDrawable_step [of "foldl cache_step s xs" x] by simp
  qed
  ultimately have lt: "d < NextDrawable ?s" by simp
  from snoc.prems have "0 < StrongCount (cache_step ?s e) d" by (simp only: cache_run_snoc)
  with inv lt have live: "0 < StrongCount ?s d" by (rule no_revival_step)
  with snoc.IH have "(k, d) \<in> set (DrawableCache ?s)" by simp
  then have "(k, d) \<in> set (DrawableCache (cache_step ?s e))" using live by (rule entry_survives_step)
  then show ?case by (simp only: cache_run_snoc)
qed

lemma SDFModel_new_reuse:
  assumes "cache_inv s" and "(Key, d) \<in> set (DrawableCache s)" and "0 < StrongCount s d"
  shows "SDFModel_new Key s = (d, s\<lparr>StrongCount := (StrongCount s)(d := StrongCount s d + 1)\<rparr>)"
proof -
  have "distinct (map fst (filter (\<lambda>Entry. 0 < StrongCount s (snd Entry)) (DrawableCache s)))"
    using assms(1) by (simp add: cache_inv_def one_live_per_key_def live_entries_def)
  then have "find_live (DrawableCache s) Key (StrongCount s) = Some d"
    using assms(2,3) by (rule find_live_unique)
  then show ?thesis by (simp add: SDFModel_new_def)
qed

lemma SDFModel_new_build:
  assumes "\<forall>Entry \<in> set (DrawableCache s). fst Entry = Key \<longrightarrow> StrongCount s (snd Entry) = 0"
  shows "SDFModel_new Key s =
           (NextDrawable s,
            s\<lparr>DrawableCache := DrawableCache s @ [(Key, NextDrawable s)],
              StrongCount := (StrongCount s)(NextDrawable s := 1),
              NextDrawable := NextDrawable s + 1,
              Populated := Populated s @ [NextDrawable s]\<rparr>)"
proof -
  have "find_live (DrawableCache s) Key (StrongCount s) = None"
    using assms by (simp only: find_live_None)
  then show ?thesis by (simp add: SDFModel_new_def Let_def)
qed

lemma SDFModel_new_entry:
  assumes "SDFModel_new Key s = (d, s1)"
  shows "(Key, d) \<in> set (DrawableCache s1) \<and> 0 < StrongCount s1 d
         \<and> length (Populated s1) \<le> length (Populated s) + 1"
proof (cases "find_live (DrawableCache s) Key (StrongCount s)")
  case None
  with assms show ?thesis by (auto simp: SDFModel_new_def Let_def)
next
  case (Some x)
  from find_live_Some [OF Some] Some assms show ?thesis by (auto simp: SDFModel_new_def)
qed


lemma count_list_upt: "count_list [0 ..< n] d = (if d < n then 1 else 0)"
  by (induction n) simp_all

lemma live_entry_unique:
  assumes "one_live_per_key s" and "(k, d) \<in> set (DrawableCache s)" and "0 < StrongCount s d"
    and "(k, d') \<in> set (DrawableCache s)" and "0 < StrongCount s d'"
  shows "d' = d"
proof -
  have "inj_on fst (set (live_entries s))"
    using assms(1) by (simp add: one_live_per_key_def distinct_map)
  moreover have "(k, d) \<in> set (live_entries s)" "(k, d') \<in> set (live_entries s)"
    using assms(2-5) by (simp_all add: live_entries_def)
  ultimately have "(k, d') = (k, d)" using inj_onD [of fst _ "(k, d')" "(k, d)"] by simp
  then show ?thesis by simp
qed

text \<open>
  C1. In every state \<open>s\<close> the program can reach: when a construction with a key bound its
  instance to the Drawable \<open>d1\<close> and, after any further events, \<open>d1\<close> is still live, a second
  construction with the same key is bound to the same Drawable \<open>d1\<close>; it calls
  \<^verbatim>\<open>Sodapop::Populate\<close> not at all and leaves the cache as it is, the first construction
  called it at most once, and \<open>d1\<close> has been populated exactly once. In all four states
  the live entries of the cache have pairwise different keys.
\<close>

theorem SDFModel_new_shares_Drawable:
  assumes "s = cache_run initial_cache es0"
    and "SDFModel_new Key s = (d1, s1)"
    and "s1' = cache_run s1 es"
    and "0 < StrongCount s1' d1"
    and "SDFModel_new Key s1' = (d2, s2)"
  shows "d2 = d1 \<and> Populated s2 = Populated s1' \<and> DrawableCache s2 = DrawableCache s1'
       \<and> length (Populated s1) \<le> length (Populated s) + 1
       \<and> count_list (Populated s2) d1 = 1
       \<and> one_live_per_key s \<and> one_live_per_key s1 \<and> one_live_per_key s1' \<and> one_live_per_key s2"
proof -
  have inv: "cache_inv s" unfolding assms(1) by (rule cache_inv_reachable)
  have "cache_inv (snd (SDFModel_new Key s))" using inv by (rule cache_inv_construct)
  then have inv1: "cache_inv s1" by (simp add: assms(2))
  have inv1': "cache_inv s1'" unfolding assms(3) using inv1 by (rule cache_inv_run)
  have "cache_inv (snd (SDFModel_new Key s1'))" using inv1' by (rule cache_inv_construct)
  then have inv2: "cache_inv s2" by (simp add: assms(5))
  from SDFModel_new_entry [OF assms(2)]
  have e1: "(Key, d1) \<in> set (DrawableCache s1)"
    and p1: "length (Populated s1) \<le> length (Populated s) + 1" by simp_all
  have e1': "(Key, d1) \<in> set (DrawableCache s1')"
    unfolding assms(3) using inv1 e1 assms(4) [unfolded assms(3)] by (rule entry_survives_run)
  from SDFModel_new_reuse [OF inv1' e1' assms(4)] assms(5)
  have d2: "d2 = d1" and s2: "s2 = s1'\<lparr>StrongCount := (StrongCount s1')(d1 := StrongCount s1' d1 + 1)\<rparr>"
    by simp_all
  have "d1 < NextDrawable s2" using inv1' e1' s2 by (auto simp: cache_inv_def)
  moreover have "Populated s2 = [0 ..< NextDrawable s2]" using inv2 by (simp add: cache_inv_def)
  ultimately have c: "count_list (Populated s2) d1 = 1" by (simp add: count_list_upt)
  show ?thesis
    using d2 s2 p1 c inv inv1 inv1' inv2 by (simp add: cache_inv_def)
qed

theorem SDFModel_new_shares_Drawable_witness:
  "fst (SDFModel_new 5 (cache_run (snd (SDFModel_new 5 (cache_run initial_cache [])))
          [EvConstruct 6, EvAcquire 0, EvRelease 0]))
     = fst (SDFModel_new 5 (cache_run initial_cache []))
   \<and> fst (SDFModel_new 5 (cache_run initial_cache [])) = 0
   \<and> Populated (snd (SDFModel_new 5 (cache_run (snd (SDFModel_new 5 (cache_run initial_cache [])))
          [EvConstruct 6, EvAcquire 0, EvRelease 0]))) = [0, 1]"
proof -
  let ?s = "cache_run initial_cache []"
  let ?s1 = "snd (SDFModel_new 5 ?s)"
  let ?s1' = "cache_run ?s1 [EvConstruct 6, EvAcquire 0, EvRelease 0]"
  have d1: "fst (SDFModel_new 5 ?s) = 0"
    by (simp add: cache_run_def SDFModel_new_def initial_cache_def)
  have live: "0 < StrongCount ?s1' (fst (SDFModel_new 5 ?s))"
    by (simp add: cache_run_def SDFModel_new_def initial_cache_def acquire_def release_def)
  have pop: "Populated ?s1' = [0, 1]"
    by (simp add: cache_run_def SDFModel_new_def initial_cache_def acquire_def release_def)
  have h2: "SDFModel_new 5 ?s = (fst (SDFModel_new 5 ?s), ?s1)" by simp
  have h5: "SDFModel_new 5 ?s1' = (fst (SDFModel_new 5 ?s1'), snd (SDFModel_new 5 ?s1'))" by simp
  have "fst (SDFModel_new 5 ?s1') = fst (SDFModel_new 5 ?s)
      \<and> Populated (snd (SDFModel_new 5 ?s1')) = Populated ?s1'"
    using SDFModel_new_shares_Drawable [OF refl h2 refl live h5] by blast
  with d1 pop show ?thesis by simp
qed

text \<open>
  C9. In every reachable state in which the Drawable \<open>d\<close> cached under a key has one last
  owner: after that owner's release \<open>d\<close> is expired and its entry is still in the cache, and
  a construction with the same key passes it over, creates a new Drawable (a different
  one), appends a new entry and calls \<^verbatim>\<open>Sodapop::Populate\<close> for it. The same holds after
  the scheduler has run the pruning finalizer.
\<close>

theorem SDFModel_new_skips_expired:
  assumes "s = cache_run initial_cache es"
    and "(Key, d) \<in> set (DrawableCache s)" and "StrongCount s d = 1"
    and "s' = release d s"
    and "s'' = cache_step s' EvRunDelete"
  shows "StrongCount s' d = 0 \<and> (Key, d) \<in> set (DrawableCache s')
       \<and> fst (SDFModel_new Key s') = NextDrawable s' \<and> NextDrawable s' \<noteq> d
       \<and> Populated (snd (SDFModel_new Key s')) = Populated s' @ [NextDrawable s']
       \<and> DrawableCache (snd (SDFModel_new Key s')) = DrawableCache s' @ [(Key, NextDrawable s')]
       \<and> fst (SDFModel_new Key s'') = NextDrawable s'' \<and> NextDrawable s'' \<noteq> d
       \<and> Populated (snd (SDFModel_new Key s'')) = Populated s'' @ [NextDrawable s'']
       \<and> DrawableCache (snd (SDFModel_new Key s'')) = DrawableCache s'' @ [(Key, NextDrawable s'')]"
proof -
  have inv: "cache_inv s" unfolding assms(1) by (rule cache_inv_reachable)
  have s': "s' = s\<lparr>StrongCount := (StrongCount s)(d := 0), DeleteQueue := DeleteQueue s + 1\<rparr>"
    using assms(3,4) by (simp add: release_def)
  have dl: "d < NextDrawable s" using inv assms(2) by (auto simp: cache_inv_def)
  have dead: "StrongCount s' (snd Entry) = 0"
    if "Entry \<in> set (DrawableCache s)" "fst Entry = Key" for Entry
  proof (rule ccontr)
    assume "StrongCount s' (snd Entry) \<noteq> 0"
    then have ne: "snd Entry \<noteq> d" and live: "0 < StrongCount s (snd Entry)"
      by (auto simp: s' split: if_splits)
    have "(Key, snd Entry) \<in> set (DrawableCache s)" using that by (metis prod.collapse)
    with inv assms(2,3) live have "snd Entry = d"
      by (intro live_entry_unique [of s Key d]) (simp_all add: cache_inv_def)
    with ne show False by simp
  qed
  have none': "\<forall>Entry \<in> set (DrawableCache s'). fst Entry = Key \<longrightarrow> StrongCount s' (snd Entry) = 0"
    using dead by (simp add: s')
  have q: "0 < DeleteQueue s'" by (simp add: s')
  have s'': "s'' = s'\<lparr>DrawableCache := erase_first_expired (DrawableCache s') (StrongCount s'),
                       DeleteQueue := DeleteQueue s' - 1\<rparr>"
    using q by (simp add: assms(5) PruneStaleDrawableFromCache_def)
  have sub: "set (DrawableCache s'') \<subseteq> set (DrawableCache s')"
    unfolding s'' using erase_first_expired_subset [of "DrawableCache s'" "StrongCount s'"] by simp
  have none'': "\<forall>Entry \<in> set (DrawableCache s''). fst Entry = Key \<longrightarrow> StrongCount s'' (snd Entry) = 0"
  proof (intro ballI impI)
    fix Entry assume "Entry \<in> set (DrawableCache s'')" and k: "fst Entry = Key"
    with sub have "Entry \<in> set (DrawableCache s')" by blast
    with none' k have "StrongCount s' (snd Entry) = 0" by blast
    then show "StrongCount s'' (snd Entry) = 0" by (simp add: s'')
  qed
  have n': "NextDrawable s' = NextDrawable s" and n'': "NextDrawable s'' = NextDrawable s"
    by (simp_all add: s' s'')
  show ?thesis
    using SDFModel_new_build [OF none'] SDFModel_new_build [OF none''] dl assms(2) n' n''
    by (simp add: s')
qed


theorem SDFModel_new_skips_expired_witness:
  "DrawableCache (cache_run initial_cache [EvConstruct 5]) = [(5, 0)]
   \<and> StrongCount (release 0 (cache_run initial_cache [EvConstruct 5])) 0 = 0
   \<and> fst (SDFModel_new 5 (release 0 (cache_run initial_cache [EvConstruct 5]))) = 1
   \<and> Populated (snd (SDFModel_new 5 (release 0 (cache_run initial_cache [EvConstruct 5])))) = [0, 1]
   \<and> DrawableCache (snd (SDFModel_new 5 (release 0 (cache_run initial_cache [EvConstruct 5]))))
       = [(5, 0), (5, 1)]
   \<and> DrawableCache (snd (SDFModel_new 5
         (cache_step (release 0 (cache_run initial_cache [EvConstruct 5])) EvRunDelete)))
       = [(5, 1)]"
proof -
  let ?s = "cache_run initial_cache [EvConstruct 5]"
  have c: "DrawableCache ?s = [(5, 0)]" and n: "NextDrawable ?s = 1" and p: "Populated ?s = [0]"
    and q: "DeleteQueue ?s = 0"
    by (simp_all add: cache_run_def SDFModel_new_def initial_cache_def)
  have e: "(5, 0) \<in> set (DrawableCache ?s)" by (simp add: c)
  have o: "StrongCount ?s 0 = 1"
    by (simp add: cache_run_def SDFModel_new_def initial_cache_def)
  have r: "DrawableCache (release 0 ?s) = [(5, 0)]" "NextDrawable (release 0 ?s) = 1"
    "Populated (release 0 ?s) = [0]" "DeleteQueue (release 0 ?s) = 1"
    "StrongCount (release 0 ?s) 0 = 0"
    using c n p q o by (simp_all add: release_def)
  have d: "DrawableCache (cache_step (release 0 ?s) EvRunDelete) = []"
    using r by (simp add: PruneStaleDrawableFromCache_def)
  have nd: "NextDrawable (cache_step (release 0 ?s) EvRunDelete) = 1"
    using r by (simp add: PruneStaleDrawableFromCache_def)
  from SDFModel_new_skips_expired [OF refl e o refl refl] c r d nd show ?thesis by simp
qed

subsection \<open>Parallel domain stages\<close>

text \<open>
  What a claim on a \<^verbatim>\<open>ParallelAccumulator\<close> does to the accumulator, whether it succeeds
  and the batch a successful claim hands out do not depend on the caller's \<^verbatim>\<open>Batch\<close> and
  \<^verbatim>\<open>BatchStart\<close>, and the caller's \<^verbatim>\<open>BatchStart\<close> stays what it was: a caller's locals
  need no place in the state of the stage.
\<close>

lemma Advance_caller_locals:
  "snd (ParallelAccumulator_Advance pa B S) = snd (ParallelAccumulator_Advance pa [] 0)"
  "Returned (fst (ParallelAccumulator_Advance pa B S)) =
     Returned (fst (ParallelAccumulator_Advance pa [] 0))"
  "Returned (fst (ParallelAccumulator_Advance pa B S)) \<Longrightarrow>
     CallerBatch (fst (ParallelAccumulator_Advance pa B S)) =
       CallerBatch (fst (ParallelAccumulator_Advance pa [] 0))"
  "CallerBatchStart (fst (ParallelAccumulator_Advance pa B S)) = S"
  by (auto simp add: ParallelAccumulator_Advance_def Let_def split: if_splits)


lemma nth_cursor_Suc: "nth_cursor claim c (Suc n) = snd (claim (nth_cursor claim c n))"
  by (simp add: nth_cursor_def)

lemma run_schedule_snoc:
  "run_schedule prime claim s (sched @ [t]) = RunInner_step prime claim (run_schedule prime claim s sched) t"
  by (simp add: run_schedule_def)

lemma count_list_update_done:
  "t < length xs \<Longrightarrow> xs ! t \<noteq> PcDone \<Longrightarrow> count_list (xs[t := PcDone]) PcDone = Suc (count_list xs PcDone)"
proof (induction xs arbitrary: t)
  case Nil
  then show ?case by simp
next
  case (Cons x xs)
  then show ?case by (cases t) auto
qed

lemma count_list_update_other:
  "t < length xs \<Longrightarrow> xs ! t \<noteq> PcDone \<Longrightarrow> v \<noteq> PcDone \<Longrightarrow> count_list (xs[t := v]) PcDone = count_list xs PcDone"
proof (induction xs arbitrary: t)
  case Nil
  then show ?case by simp
next
  case (Cons x xs)
  then show ?case by (cases t) auto
qed

lemma count_list_lt_length:
  "t < length xs \<Longrightarrow> xs ! t \<noteq> v \<Longrightarrow> count_list xs v < length xs"
proof (induction xs arbitrary: t)
  case Nil
  then show ?case by simp
next
  case (Cons x xs)
  show ?case
  proof (cases t)
    case 0
    with Cons.prems have "x \<noteq> v" by simp
    moreover have "count_list xs v \<le> length xs" by (rule count_le_length)
    ultimately show ?thesis by simp
  next
    case (Suc k)
    with Cons.prems have "k < length xs" "xs ! k \<noteq> v" by simp_all
    then have "count_list xs v < length xs" by (rule Cons.IH)
    then show ?thesis by simp
  qed
qed

lemma stage_inv_pending:
  assumes "stage_inv prime claim c rs T sched s" and "SetupPending s"
  shows "Threads s = replicate T PcSetup" "LoopCalls s = []" "Cursor s = c" "SetupCalled s = 0"
  using assms by (simp_all add: stage_inv_def)

lemma stage_inv_running:
  assumes "stage_inv prime claim c rs T sched s" and "\<not> SetupPending s"
  shows "SetupCalled s = 1" and "\<exists>n. running_at prime claim c rs T sched s n"
  using assms unfolding stage_inv_def by auto

lemma running_atD:
  assumes "running_at prime claim c rs T sched s n"
  shows "Cursor s = nth_cursor claim (prime c) n" and "LoopCalls s = concat (take n rs)"
    and "count_list (Threads s) PcDone = n - min n (length rs)"
    and "\<And>t. t < T \<Longrightarrow> Threads s ! t = PcLoop \<Longrightarrow> count_list sched t \<le> 1 + min n (length rs)"
  using assms unfolding running_at_def by auto

lemma stage_inv_common:
  assumes "stage_inv prime claim c rs T sched s"
  shows "length (Threads s) = T"
    and "\<And>t. t < T \<Longrightarrow> Threads s ! t = PcSetup \<Longrightarrow> count_list sched t = 0"
  using assms unfolding stage_inv_def by auto

lemma stage_invI_running:
  assumes "length (Threads s) = T" and "\<not> SetupPending s" and "SetupCalled s = 1"
    and "Cursor s = nth_cursor claim (prime c) n" and "LoopCalls s = concat (take n rs)"
    and "count_list (Threads s) PcDone = n - min n (length rs)"
    and "\<And>t. t < T \<Longrightarrow> Threads s ! t = PcLoop \<Longrightarrow> count_list sched t \<le> 1 + min n (length rs)"
    and "\<And>t. t < T \<Longrightarrow> Threads s ! t = PcSetup \<Longrightarrow> count_list sched t = 0"
  shows "stage_inv prime claim c rs T sched s"
  using assms unfolding stage_inv_def running_at_def by auto

lemma stage_invI_pending:
  assumes "SetupPending s" and "Threads s = replicate T PcSetup" and "LoopCalls s = []"
    and "Cursor s = c" and "SetupCalled s = 0"
    and "\<And>t. t < T \<Longrightarrow> count_list sched t = 0"
  shows "stage_inv prime claim c rs T sched s"
  using assms unfolding stage_inv_def by auto

lemma stage_inv_initial: "stage_inv prime claim c rs T [] (initial_stage T c)"
  by (simp add: stage_inv_def initial_stage_def)

lemma stage_inv_idle:
  assumes inv: "stage_inv prime claim c rs T sched s"
    and idle: "T \<le> t \<or> Threads s ! t = PcDone"
  shows "stage_inv prime claim c rs T (sched @ [t]) s"
proof -
  have other: "count_list (sched @ [t]) u = count_list sched u"
    if "u < T" "Threads s ! u \<noteq> PcDone" for u
    using that idle by auto
  show ?thesis
  proof (cases "SetupPending s")
    case True
    note p = stage_inv_pending [OF inv True]
    show ?thesis
    proof (rule stage_invI_pending [OF True p])
      fix u assume u: "u < T"
      then have "Threads s ! u = PcSetup" by (simp add: p(1))
      with u other [of u] stage_inv_common(2) [OF inv, of u]
      show "count_list (sched @ [t]) u = 0" by simp
    qed
  next
    case False
    from stage_inv_running [OF inv False] obtain n where
      sc: "SetupCalled s = 1" and r: "running_at prime claim c rs T sched s n" by blast
    note n = running_atD [OF r]
    show ?thesis
    proof (rule stage_invI_running [where n = n])
      show "length (Threads s) = T" by (rule stage_inv_common(1) [OF inv])
      show "\<not> SetupPending s" by (rule False)
      show "SetupCalled s = 1" by (rule sc)
      show "Cursor s = nth_cursor claim (prime c) n" by (rule n(1))
      show "LoopCalls s = concat (take n rs)" by (rule n(2))
      show "count_list (Threads s) PcDone = n - min n (length rs)" by (rule n(3))
      show "count_list (sched @ [t]) u \<le> 1 + min n (length rs)" if "u < T" "Threads s ! u = PcLoop" for u
        using other [of u] n(4) [of u] that by simp
      show "count_list (sched @ [t]) u = 0" if "u < T" "Threads s ! u = PcSetup" for u
        using other [of u] stage_inv_common(2) [OF inv, of u] that by simp
    qed
  qed
qed


lemma RunInner_step_idle:
  "length (Threads s) \<le> t \<or> Threads s ! t = PcDone \<Longrightarrow> RunInner_step prime claim s t = s"
  by (auto simp: RunInner_step_def)

lemma stage_inv_step:
  assumes ex: "exhausts claim (prime c) rs limit" and lim: "length rs + T \<le> limit"
    and inv: "stage_inv prime claim c rs T sched s"
  shows "stage_inv prime claim c rs T (sched @ [t]) (RunInner_step prime claim s t)"
proof -
  note len = stage_inv_common(1) [OF inv]
  note setup0 = stage_inv_common(2) [OF inv]
  let ?m = "length rs"
  have cnt_other: "count_list (sched @ [t]) u = count_list sched u" if "u \<noteq> t" for u
    using that by simp
  have cnt_self: "count_list (sched @ [t]) t = count_list sched t + 1" by simp
  show ?thesis
  proof (cases "T \<le> t \<or> Threads s ! t = PcDone")
    case True
    then have "RunInner_step prime claim s t = s" using len by (intro RunInner_step_idle) simp
    with stage_inv_idle [OF inv True] show ?thesis by simp
  next
    case False
    then have t: "t < T" and nd: "Threads s ! t \<noteq> PcDone" by simp_all
    have tl: "t < length (Threads s)" using t len by simp
    show ?thesis
    proof (cases "Threads s ! t")
      case PcDone
      with nd show ?thesis by simp
    next
      case PcSetup
      have c0: "count_list sched t = 0" using t PcSetup by (rule setup0)
      show ?thesis
      proof (cases "SetupPending s")
        case True
        note p = stage_inv_pending [OF inv True]
        let ?s = "s\<lparr>SetupPending := False, SetupCalled := SetupCalled s + 1,
                        Cursor := prime (Cursor s), Threads := (Threads s)[t := PcLoop]\<rparr>"
        have st: "RunInner_step prime claim s t = ?s"
          using tl PcSetup True by (simp add: RunInner_step_def)
        have "stage_inv prime claim c rs T (sched @ [t]) ?s"
        proof (rule stage_invI_running [where n = 0])
          show "length (Threads ?s) = T" using len by simp
          show "\<not> SetupPending ?s" by simp
          show "SetupCalled ?s = 1" using p(4) by simp
          show "Cursor ?s = nth_cursor claim (prime c) 0" using p(3) by (simp add: nth_cursor_def)
          show "LoopCalls ?s = concat (take 0 rs)" using p(2) by simp
          have "count_list ((Threads s)[t := PcLoop]) PcDone = count_list (Threads s) PcDone"
            using tl nd by (intro count_list_update_other) simp_all
          then show "count_list (Threads ?s) PcDone = 0 - min 0 ?m" using p(1) by simp
          show "count_list (sched @ [t]) u \<le> 1 + min 0 ?m" if "u < T" "Threads ?s ! u = PcLoop" for u
          proof -
            have "u = t" using that p(1) tl by (cases "u = t") simp_all
            then show ?thesis using c0 by simp
          qed
          show "count_list (sched @ [t]) u = 0" if "u < T" "Threads ?s ! u = PcSetup" for u
          proof -
            have ne: "u \<noteq> t" using that tl by (cases "u = t") simp_all
            then have "Threads s ! u = PcSetup" using that by simp
            with that(1) have "count_list sched u = 0" by (rule setup0)
            then show ?thesis using ne by simp
          qed
        qed
        with st show ?thesis by simp
      next
        case False
        from stage_inv_running [OF inv False] obtain n where
          sc: "SetupCalled s = 1" and r: "running_at prime claim c rs T sched s n" by blast
        note n = running_atD [OF r]
        let ?s = "s\<lparr>Threads := (Threads s)[t := PcLoop]\<rparr>"
        have st: "RunInner_step prime claim s t = ?s"
          using tl PcSetup False by (simp add: RunInner_step_def)
        have "stage_inv prime claim c rs T (sched @ [t]) ?s"
        proof (rule stage_invI_running [where n = n])
          show "length (Threads ?s) = T" using len by simp
          show "\<not> SetupPending ?s" using False by simp
          show "SetupCalled ?s = 1" using sc by simp
          show "Cursor ?s = nth_cursor claim (prime c) n" using n(1) by simp
          show "LoopCalls ?s = concat (take n rs)" using n(2) by simp
          have "count_list ((Threads s)[t := PcLoop]) PcDone = count_list (Threads s) PcDone"
            using tl nd by (intro count_list_update_other) simp_all
          then show "count_list (Threads ?s) PcDone = n - min n ?m" using n(3) by simp
          show "count_list (sched @ [t]) u \<le> 1 + min n ?m" if "u < T" "Threads ?s ! u = PcLoop" for u
          proof (cases "u = t")
            case True
            then show ?thesis using c0 by simp
          next
            case False
            then have "Threads s ! u = PcLoop" using that by simp
            with that(1) have "count_list sched u \<le> 1 + min n ?m" by (rule n(4))
            then show ?thesis using False by simp
          qed
          show "count_list (sched @ [t]) u = 0" if "u < T" "Threads ?s ! u = PcSetup" for u
          proof -
            have ne: "u \<noteq> t" using that tl by (cases "u = t") simp_all
            then have "Threads s ! u = PcSetup" using that by simp
            with that(1) have "count_list sched u = 0" by (rule setup0)
            then show ?thesis using ne by simp
          qed
        qed
        with st show ?thesis by simp
      qed
    next
      case PcLoop
      have np: "\<not> SetupPending s"
      proof
        assume "SetupPending s"
        from stage_inv_pending(1) [OF inv this] t PcLoop show False by simp
      qed
      from stage_inv_running [OF inv np] obtain n where
        sc: "SetupCalled s = 1" and r: "running_at prime claim c rs T sched s n" by blast
      note n = running_atD [OF r]
      have "count_list (Threads s) PcDone < length (Threads s)"
        using tl nd by (rule count_list_lt_length)
      then have "n - min n ?m < T" using n(3) len by simp
      then have "n < limit" using lim by (simp add: min_def split: if_splits)
      with ex have cl: "fst (claim (Cursor s)) = (if n < ?m then Some (rs ! n) else None)"
        by (simp add: exhausts_def n(1))
      have cur: "snd (claim (Cursor s)) = nth_cursor claim (prime c) (Suc n)"
        by (simp add: nth_cursor_Suc n(1))
      show ?thesis
      proof (cases "n < ?m")
        case True
        with cl cur have c: "claim (Cursor s) = (Some (rs ! n), nth_cursor claim (prime c) (Suc n))"
          by (metis prod.collapse)
        let ?s = "s\<lparr>Cursor := nth_cursor claim (prime c) (Suc n), LoopCalls := LoopCalls s @ rs ! n\<rparr>"
        have st: "RunInner_step prime claim s t = ?s"
          using tl PcLoop c by (simp add: RunInner_step_def)
        have "stage_inv prime claim c rs T (sched @ [t]) ?s"
        proof (rule stage_invI_running [where n = "Suc n"])
          show "length (Threads ?s) = T" using len by simp
          show "\<not> SetupPending ?s" using np by simp
          show "SetupCalled ?s = 1" using sc by simp
          show "Cursor ?s = nth_cursor claim (prime c) (Suc n)" by simp
          show "LoopCalls ?s = concat (take (Suc n) rs)"
            using n(2) True by (simp add: take_Suc_conv_app_nth)
          show "count_list (Threads ?s) PcDone = Suc n - min (Suc n) ?m"
            using n(3) True by simp
          show "count_list (sched @ [t]) u \<le> 1 + min (Suc n) ?m" if "u < T" "Threads ?s ! u = PcLoop" for u
          proof -
            from that have "count_list sched u \<le> 1 + min n ?m" by (intro n(4)) simp_all
            moreover have "count_list (sched @ [t]) u \<le> count_list sched u + 1" by simp
            ultimately show ?thesis using True by simp
          qed
          show "count_list (sched @ [t]) u = 0" if "u < T" "Threads ?s ! u = PcSetup" for u
          proof -
            have ne: "u \<noteq> t" using that PcLoop by (cases "u = t") simp_all
            from that have "count_list sched u = 0" by (intro setup0) simp_all
            then show ?thesis using ne by simp
          qed
        qed
        with st show ?thesis by simp
      next
        case False
        with cl cur have c: "claim (Cursor s) = (None, nth_cursor claim (prime c) (Suc n))"
          by (metis prod.collapse)
        let ?s = "s\<lparr>Cursor := nth_cursor claim (prime c) (Suc n), Threads := (Threads s)[t := PcDone]\<rparr>"
        have st: "RunInner_step prime claim s t = ?s"
          using tl PcLoop c by (simp add: RunInner_step_def)
        have "stage_inv prime claim c rs T (sched @ [t]) ?s"
        proof (rule stage_invI_running [where n = "Suc n"])
          show "length (Threads ?s) = T" using len by simp
          show "\<not> SetupPending ?s" using np by simp
          show "SetupCalled ?s = 1" using sc by simp
          show "Cursor ?s = nth_cursor claim (prime c) (Suc n)" by simp
          show "LoopCalls ?s = concat (take (Suc n) rs)"
            using n(2) False by simp
          have "count_list ((Threads s)[t := PcDone]) PcDone = Suc (count_list (Threads s) PcDone)"
            using tl nd by (rule count_list_update_done)
          moreover have "min n ?m = ?m" "min (Suc n) ?m = ?m" "?m \<le> n" using False by simp_all
          ultimately show "count_list (Threads ?s) PcDone = Suc n - min (Suc n) ?m"
            using n(3) by (simp add: Suc_diff_le)
          show "count_list (sched @ [t]) u \<le> 1 + min (Suc n) ?m" if "u < T" "Threads ?s ! u = PcLoop" for u
          proof -
            have ne: "u \<noteq> t" using that tl by (cases "u = t") simp_all
            then have "Threads s ! u = PcLoop" using that by simp
            with that(1) have "count_list sched u \<le> 1 + min n ?m" by (rule n(4))
            moreover have "min n ?m = ?m" "min (Suc n) ?m = ?m" using False by simp_all
            ultimately show ?thesis using ne by simp
          qed
          show "count_list (sched @ [t]) u = 0" if "u < T" "Threads ?s ! u = PcSetup" for u
          proof -
            have ne: "u \<noteq> t" using that tl by (cases "u = t") simp_all
            then have "Threads s ! u = PcSetup" using that by simp
            with that(1) have "count_list sched u = 0" by (rule setup0)
            then show ?thesis using ne by simp
          qed
        qed
        with st show ?thesis by simp
      qed
    qed
  qed
qed

lemma stage_inv_run:
  assumes "exhausts claim (prime c) rs limit" and "length rs + T \<le> limit"
  shows "stage_inv prime claim c rs T sched (run_schedule prime claim (initial_stage T c) sched)"
proof (induction sched rule: rev_induct)
  case Nil
  show ?case by (simp add: run_schedule_def stage_inv_initial)
next
  case (snoc t sched)
  from stage_inv_step [OF assms snoc] show ?case by (simp only: run_schedule_snoc)
qed

lemma count_list_all: "list_all (\<lambda>x. x = v) xs \<Longrightarrow> count_list xs v = length xs"
  by (induction xs) simp_all

lemma stage_complete:
  assumes ex: "exhausts claim (prime c) rs limit" and lim: "length rs + T \<le> limit"
    and T: "0 < T"
    and fin: "all_done (run_schedule prime claim (initial_stage T c) sched)"
  shows "LoopCalls (run_schedule prime claim (initial_stage T c) sched) = concat rs
         \<and> SetupCalled (run_schedule prime claim (initial_stage T c) sched) = 1"
proof -
  let ?s = "run_schedule prime claim (initial_stage T c) sched"
  have inv: "stage_inv prime claim c rs T sched ?s" by (rule stage_inv_run [where prime = prime and c = c, OF ex lim])
  note len = stage_inv_common(1) [OF inv]
  have d0: "Threads ?s ! 0 = PcDone" using fin T len by (simp add: all_done_def list_all_length)
  have np: "\<not> SetupPending ?s"
  proof
    assume "SetupPending ?s"
    from stage_inv_pending(1) [OF inv this] d0 T show False by simp
  qed
  from stage_inv_running [OF inv np] obtain n where
    sc: "SetupCalled ?s = 1" and r: "running_at prime claim c rs T sched ?s n" by blast
  note n = running_atD [OF r]
  have "count_list (Threads ?s) PcDone = T"
    using fin len count_list_all [of PcDone "Threads ?s"] by (simp add: all_done_def)
  with n(3) T have "length rs < n" by (simp add: min_def split: if_splits)
  with n(2) sc show ?thesis by simp
qed

lemma stage_progress:
  assumes ex: "exhausts claim (prime c) rs limit" and lim: "length rs + T \<le> limit"
    and often: "\<forall>t < T. length rs + 2 \<le> count_list sched t"
  shows "all_done (run_schedule prime claim (initial_stage T c) sched)"
proof -
  let ?s = "run_schedule prime claim (initial_stage T c) sched"
  have inv: "stage_inv prime claim c rs T sched ?s" by (rule stage_inv_run [where prime = prime and c = c, OF ex lim])
  note len = stage_inv_common(1) [OF inv]
  have "Threads ?s ! t = PcDone" if t: "t < T" for t
  proof (cases "Threads ?s ! t")
    case PcDone
    then show ?thesis .
  next
    case PcSetup
    with t have "count_list sched t = 0" by (rule stage_inv_common(2) [OF inv])
    with often t show ?thesis by auto
  next
    case PcLoop
    have np: "\<not> SetupPending ?s"
    proof
      assume "SetupPending ?s"
      from stage_inv_pending(1) [OF inv this] t PcLoop show False by simp
    qed
    from stage_inv_running [OF inv np] obtain n where
      r: "running_at prime claim c rs T sched ?s n" by blast
    from running_atD(4) [OF r t PcLoop] have "count_list sched t \<le> 1 + length rs" by simp
    with often t show ?thesis by auto
  qed
  then show ?thesis using len by (simp add: all_done_def list_all_length)
qed


lemma wrap_int32_small: "0 \<le> i \<Longrightarrow> i < 2 ^ 31 \<Longrightarrow> wrap_int32 i = i"
  by (simp add: wrap_int32_def)

lemma wrap_int32_big: "2 ^ 31 \<le> i \<Longrightarrow> i < 2 ^ 32 \<Longrightarrow> wrap_int32 i = i - 2 ^ 32"
proof -
  assume a: "2 ^ 31 \<le> i" "i < 2 ^ 32"
  have "(i + 2 ^ 31) mod 2 ^ 32 = (i + 2 ^ 31 - 2 ^ 32) mod 2 ^ 32"
    by (metis mod_diff_right_eq mod_self diff_zero)
  also have "\<dots> = i + 2 ^ 31 - 2 ^ 32" using a by simp
  finally show ?thesis by (simp add: wrap_int32_def)
qed

lemma wrap_int32_succ: "wrap_int32 (wrap_int32 i + 1) = wrap_int32 (i + 1)"
proof -
  have "wrap_int32 i + 1 + 2 ^ 31 = (i + 2 ^ 31) mod 2 ^ 32 + 1"
    by (simp add: wrap_int32_def)
  then have "(wrap_int32 i + 1 + 2 ^ 31) mod 2 ^ 32 = ((i + 2 ^ 31) mod 2 ^ 32 + 1) mod 2 ^ 32"
    by (simp only:)
  also have "\<dots> = (i + 2 ^ 31 + 1) mod 2 ^ 32"
    by (rule mod_add_left_eq)
  also have "i + 2 ^ 31 + 1 = i + 1 + 2 ^ 31" by simp
  finally show ?thesis by (simp add: wrap_int32_def)
qed

lemma claim_random_access_next:
  "NextIndex (snd (claim_random_access c)) = wrap_int32 (NextIndex c + 1)"
  "ra_Domain (snd (claim_random_access c)) = ra_Domain c"
  by (simp_all add: claim_random_access_def Let_def)

lemma nth_cursor_random_access:
  assumes "NextIndex c = 0"
  shows "NextIndex (nth_cursor claim_random_access c n) = wrap_int32 (int n)"
    and "ra_Domain (nth_cursor claim_random_access c n) = ra_Domain c"
proof (induction n)
  case 0
  show "NextIndex (nth_cursor claim_random_access c 0) = wrap_int32 (int 0)"
    using assms by (simp add: nth_cursor_def wrap_int32_def)
  show "ra_Domain (nth_cursor claim_random_access c 0) = ra_Domain c"
    by (simp add: nth_cursor_def)
next
  case (Suc n)
  have "NextIndex (nth_cursor claim_random_access c (Suc n)) = wrap_int32 (wrap_int32 (int n) + 1)"
    by (simp only: nth_cursor_Suc claim_random_access_next Suc)
  also have "\<dots> = wrap_int32 (int n + 1)" by (rule wrap_int32_succ)
  also have "int n + 1 = int (Suc n)" by simp
  finally show "NextIndex (nth_cursor claim_random_access c (Suc n)) = wrap_int32 (int (Suc n))" .
  show "ra_Domain (nth_cursor claim_random_access c (Suc n)) = ra_Domain c"
    by (simp only: nth_cursor_Suc claim_random_access_next Suc)
qed

lemma exhausts_random_access:
  assumes z: "NextIndex c = 0" and K: "length (ra_Domain c) \<le> 2 ^ 63"
  shows "exhausts claim_random_access (prime_random_access c)
           (map (\<lambda>i. [(i, int i)]) [0 ..< min (length (ra_Domain c)) (2 ^ 31)]) (2 ^ 32)"
  unfolding exhausts_def prime_random_access_def
proof (intro allI impI)
  fix j :: nat assume j: "j < 2 ^ 32"
  let ?c = "nth_cursor claim_random_access c j"
  let ?K = "length (ra_Domain c)"
  note nc = nth_cursor_random_access [OF z, of j]
  show "fst (claim_random_access ?c) =
      (if j < length (map (\<lambda>i. [(i, int i)]) [0 ..< min ?K (2 ^ 31)])
       then Some (map (\<lambda>i. [(i, int i)]) [0 ..< min ?K (2 ^ 31)] ! j) else None)"
  proof (cases "j < 2 ^ 31")
    case True
    then have w: "wrap_int32 (int j) = int j" by (intro wrap_int32_small) simp_all
    have t: "to_size_t (int j) = j" using True by (simp add: to_size_t_def)
    show ?thesis using True by (simp add: claim_random_access_def Let_def nc w t)
  next
    case False
    then have w: "wrap_int32 (int j) = int j - 2 ^ 32" using j by (intro wrap_int32_big) simp_all
    have "(int j - 2 ^ 32) mod 2 ^ 64 = (int j - 2 ^ 32 + 2 ^ 64) mod 2 ^ 64"
      by (metis mod_add_self2)
    also have "\<dots> = int j - 2 ^ 32 + 2 ^ 64" using False j by simp
    finally have "to_size_t (int j - 2 ^ 32) = nat (int j - 2 ^ 32 + 2 ^ 64)"
      by (simp add: to_size_t_def)
    then have "\<not> to_size_t (int j - 2 ^ 32) < ?K" using K False by simp
    then show ?thesis using False by (simp add: claim_random_access_def Let_def nc w)
  qed
qed


lemma claim_forward_next:
  "StopIter (snd (claim_forward c)) = StopIter c" "fw_Domain (snd (claim_forward c)) = fw_Domain c"
  "NextIter (snd (claim_forward c)) = (if NextIter c \<noteq> StopIter c then NextIter c + 1 else NextIter c)"
  by (simp_all add: claim_forward_def)

lemma nth_cursor_forward:
  "NextIter (nth_cursor claim_forward (prime_forward c) j) = min j (length (fw_Domain c))
   \<and> StopIter (nth_cursor claim_forward (prime_forward c) j) = length (fw_Domain c)"
proof (induction j)
  case 0
  show ?case by (simp add: nth_cursor_def prime_forward_def)
next
  case (Suc j)
  then show ?case by (simp add: nth_cursor_Suc claim_forward_next min_def)
qed

lemma exhausts_forward:
  "exhausts claim_forward (prime_forward c) (map (\<lambda>i. [(i, - 1)]) [0 ..< length (fw_Domain c)]) limit"
  unfolding exhausts_def
proof (intro allI impI)
  fix j
  note nc = nth_cursor_forward [of c j]
  show "fst (claim_forward (nth_cursor claim_forward (prime_forward c) j)) =
      (if j < length (map (\<lambda>i. [(i, - 1)]) [0 ..< length (fw_Domain c)])
       then Some (map (\<lambda>i. [(i, - 1)]) [0 ..< length (fw_Domain c)] ! j) else None)"
    by (simp add: claim_forward_def nc min_def)
qed

lemma claim_generator_next:
  "sg_Lanes (snd (claim_generator sg)) = sg_Lanes sg"
  "sg_Progress (snd (claim_generator sg)) = (sg_Progress sg + 1) mod 2 ^ 64"
  by (simp_all add: claim_generator_def SequenceGenerator_Advance_def Let_def)

lemma nth_cursor_generator:
  "sg_Lanes (nth_cursor claim_generator sg j) = sg_Lanes sg
   \<and> sg_Progress (nth_cursor claim_generator sg j) = (sg_Progress sg + j) mod 2 ^ 64"
  if "sg_Progress sg < 2 ^ 64"
proof (induction j)
  case 0
  show ?case using that by (simp add: nth_cursor_def)
next
  case (Suc j)
  then show ?case by (simp add: nth_cursor_Suc claim_generator_next mod_simps)
qed

lemma exhausts_generator:
  assumes "sg_Progress sg = 0" and "length (sg_Lanes sg) \<le> 2 ^ 64"
  shows "exhausts claim_generator (prime_generator sg)
           (map (\<lambda>l. slice_calls (Start l) (StopBefore l)) (sg_Lanes sg)) (2 ^ 64)"
  unfolding exhausts_def prime_generator_def
proof (intro allI impI)
  fix j :: nat assume j: "j < 2 ^ 64"
  have "sg_Progress sg < 2 ^ 64" using assms(1) by simp
  note nc = nth_cursor_generator [OF this, of j]
  have p: "sg_Progress (nth_cursor claim_generator sg j) = j" using nc assms(1) j by simp
  show "fst (claim_generator (nth_cursor claim_generator sg j)) =
      (if j < length (map (\<lambda>l. slice_calls (Start l) (StopBefore l)) (sg_Lanes sg))
       then Some (map (\<lambda>l. slice_calls (Start l) (StopBefore l)) (sg_Lanes sg) ! j) else None)"
    using nc p by (simp add: claim_generator_def SequenceGenerator_Advance_def Let_def)
qed

lemma claim_accumulator_next:
  "pa_Progress (snd (claim_accumulator pa)) = (pa_Progress pa + 1) mod 2 ^ 64"
  "length (pa_Lanes (snd (claim_accumulator pa))) = length (pa_Lanes pa)"
  "pa_Progress pa < i \<Longrightarrow> pa_Lanes (snd (claim_accumulator pa)) ! i = pa_Lanes pa ! i"
  by (simp_all add: claim_accumulator_def ParallelAccumulator_Advance_def Let_def)

lemma nth_cursor_accumulator:
  assumes "pa_Progress pa = 0" and "j < 2 ^ 64"
  shows "pa_Progress (nth_cursor claim_accumulator pa j) = j
       \<and> length (pa_Lanes (nth_cursor claim_accumulator pa j)) = length (pa_Lanes pa)
       \<and> (\<forall>i \<ge> j. pa_Lanes (nth_cursor claim_accumulator pa j) ! i = pa_Lanes pa ! i)"
  using assms(2)
proof (induction j)
  case 0
  show ?case using assms(1) by (simp add: nth_cursor_def)
next
  case (Suc j)
  then have IH: "pa_Progress (nth_cursor claim_accumulator pa j) = j"
    "length (pa_Lanes (nth_cursor claim_accumulator pa j)) = length (pa_Lanes pa)"
    "\<forall>i \<ge> j. pa_Lanes (nth_cursor claim_accumulator pa j) ! i = pa_Lanes pa ! i"
    by simp_all
  have "pa_Lanes (nth_cursor claim_accumulator pa (Suc j)) ! i = pa_Lanes pa ! i" if "Suc j \<le> i" for i
    using that IH by (simp add: nth_cursor_Suc claim_accumulator_next)
  then show ?case using IH Suc.prems by (simp add: nth_cursor_Suc claim_accumulator_next)
qed

lemma exhausts_accumulator:
  assumes "pa_Progress pa = 0" and "length (pa_Lanes pa) \<le> 2 ^ 64"
  shows "exhausts claim_accumulator (prime_accumulator pa)
           (map (\<lambda>l. batch_calls l 0 (length (pa_Lanes pa ! l))) [0 ..< length (pa_Lanes pa)]) (2 ^ 64)"
  unfolding exhausts_def prime_accumulator_def
proof (intro allI impI)
  fix j :: nat assume j: "j < 2 ^ 64"
  note nc = nth_cursor_accumulator [OF assms(1) j]
  show "fst (claim_accumulator (nth_cursor claim_accumulator pa j)) =
      (if j < length (map (\<lambda>l. batch_calls l 0 (length (pa_Lanes pa ! l))) [0 ..< length (pa_Lanes pa)])
       then Some (map (\<lambda>l. batch_calls l 0 (length (pa_Lanes pa ! l))) [0 ..< length (pa_Lanes pa)] ! j)
       else None)"
    using nc by (simp add: claim_accumulator_def ParallelAccumulator_Advance_def Let_def)
qed

lemma linked_nth:
  "linked nx p ps \<Longrightarrow> j < length ps \<Longrightarrow>
   nx (ps ! j) = (if Suc j < length ps then Some (ps ! Suc j) else None)"
proof (induction ps arbitrary: p j)
  case Nil
  then show ?case by simp
next
  case (Cons q qs)
  show ?case
  proof (cases j)
    case 0
    with Cons.prems show ?thesis by (cases qs) simp_all
  next
    case (Suc k)
    with Cons.prems have "linked nx (nx q) qs" "k < length qs" by simp_all
    from Cons.IH [OF this] Suc show ?thesis by simp
  qed
qed

lemma linked_head: "linked nx p ps \<Longrightarrow> p = (if ps = [] then None else Some (ps ! 0))"
  by (cases ps) simp_all

lemma claim_octree_next:
  "LeafNext (snd (claim_octree c)) = LeafNext c"
  "NextLeaf (snd (claim_octree c)) = (case NextLeaf c of None \<Rightarrow> None | Some Leaf \<Rightarrow> LeafNext c Leaf)"
  by (simp_all add: claim_octree_def split: option.splits)

lemma nth_cursor_octree:
  assumes "linked (LeafNext c) (LeafNext c (DomainRoot c)) ps"
  shows "LeafNext (nth_cursor claim_octree (prime_octree c) j) = LeafNext c
       \<and> NextLeaf (nth_cursor claim_octree (prime_octree c) j)
           = (if j < length ps then Some (ps ! j) else None)"
proof (induction j)
  case 0
  show ?case using linked_head [OF assms] by (simp add: nth_cursor_def prime_octree_def)
next
  case (Suc j)
  show ?case
  proof (cases "j < length ps")
    case True
    from linked_nth [OF assms True] Suc True show ?thesis
      by (simp add: nth_cursor_Suc claim_octree_next)
  next
    case False
    with Suc show ?thesis by (simp add: nth_cursor_Suc claim_octree_next)
  qed
qed

lemma exhausts_octree:
  assumes "linked (LeafNext c) (LeafNext c (DomainRoot c)) ps"
  shows "exhausts claim_octree (prime_octree c) (map (\<lambda>q. [(q, - 1)]) ps) limit"
  unfolding exhausts_def
proof (intro allI impI)
  fix j
  note nc = nth_cursor_octree [OF assms, of j]
  show "fst (claim_octree (nth_cursor claim_octree (prime_octree c) j)) =
      (if j < length (map (\<lambda>q. [(q, - 1)]) ps) then Some (map (\<lambda>q. [(q, - 1)]) ps ! j) else None)"
    using nc by (simp add: claim_octree_def)
qed


lemma runs_oftenD: "runs_often T m sched \<Longrightarrow> \<forall>t < T. m + 2 \<le> count_list sched t"
  by (simp add: runs_often_def list_all_iff)

lemma concat_singletons: "concat (map (\<lambda>i. [f i]) xs) = map f xs"
  by (induction xs) simp_all

lemma random_access_complete:
  assumes "0 < T" and "NextIndex c = 0" and "length (ra_Domain c) \<le> 2 ^ 63"
    and "min (length (ra_Domain c)) (2 ^ 31) + T \<le> 2 ^ 32"
  shows "runs_often T (min (length (ra_Domain c)) (2 ^ 31)) sched \<Longrightarrow>
           all_done (RunInner_random_access T c sched)"
    and "all_done (RunInner_random_access T c sched) \<Longrightarrow>
           LoopCalls (RunInner_random_access T c sched)
             = map (\<lambda>i. (i, int i)) [0 ..< min (length (ra_Domain c)) (2 ^ 31)]
           \<and> SetupCalled (RunInner_random_access T c sched) = 1"
proof -
  let ?rs = "map (\<lambda>i. [(i, int i)]) [0 ..< min (length (ra_Domain c)) (2 ^ 31)]"
  have ex: "exhausts claim_random_access (prime_random_access c) ?rs (2 ^ 32)"
    by (rule exhausts_random_access [OF assms(2,3)])
  have lim: "length ?rs + T \<le> 2 ^ 32" using assms(4) by simp
  show "all_done (RunInner_random_access T c sched)"
    if "runs_often T (min (length (ra_Domain c)) (2 ^ 31)) sched"
    unfolding RunInner_random_access_def
    using runs_oftenD [OF that]
    by (intro stage_progress [where prime = prime_random_access and c = c, OF ex lim]) simp
  show "LoopCalls (RunInner_random_access T c sched)
             = map (\<lambda>i. (i, int i)) [0 ..< min (length (ra_Domain c)) (2 ^ 31)]
           \<and> SetupCalled (RunInner_random_access T c sched) = 1"
    if "all_done (RunInner_random_access T c sched)"
    using stage_complete [where prime = prime_random_access and c = c, OF ex lim assms(1)]
      that
    unfolding RunInner_random_access_def by (simp add: concat_singletons)
qed


lemma forward_complete:
  assumes "0 < T"
  shows "runs_often T (length (fw_Domain c)) sched \<Longrightarrow> all_done (RunInner_forward T c sched)"
    and "all_done (RunInner_forward T c sched) \<Longrightarrow>
           LoopCalls (RunInner_forward T c sched) = map (\<lambda>i. (i, - 1)) [0 ..< length (fw_Domain c)]
           \<and> SetupCalled (RunInner_forward T c sched) = 1"
proof -
  let ?rs = "map (\<lambda>i. [(i, - 1 :: int)]) [0 ..< length (fw_Domain c)]"
  have ex: "exhausts claim_forward (prime_forward c) ?rs (length ?rs + T)"
    by (rule exhausts_forward)
  show "all_done (RunInner_forward T c sched)" if "runs_often T (length (fw_Domain c)) sched"
    unfolding RunInner_forward_def using runs_oftenD [OF that]
    by (intro stage_progress [where prime = prime_forward and c = c, OF ex order_refl]) simp
  show "LoopCalls (RunInner_forward T c sched) = map (\<lambda>i. (i, - 1)) [0 ..< length (fw_Domain c)]
           \<and> SetupCalled (RunInner_forward T c sched) = 1"
    if "all_done (RunInner_forward T c sched)"
    using stage_complete [where prime = prime_forward and c = c, OF ex order_refl assms] that
    unfolding RunInner_forward_def by (simp add: concat_singletons)
qed

lemma map_fst_slice_calls:
  "map fst (concat (map (\<lambda>l. slice_calls (Start l) (StopBefore l)) lanes)) = concat (map slice_indices lanes)"
  by (induction lanes) (simp_all add: slice_calls_def slice_indices_def comp_def)

lemma generator_complete:
  assumes "0 < T" and "sg_Progress sg = 0" and "length (sg_Lanes sg) + T \<le> 2 ^ 64"
  shows "runs_often T (length (sg_Lanes sg)) sched \<Longrightarrow> all_done (RunInner_generator T sg sched)"
    and "all_done (RunInner_generator T sg sched) \<Longrightarrow>
           LoopCalls (RunInner_generator T sg sched)
             = concat (map (\<lambda>l. slice_calls (Start l) (StopBefore l)) (sg_Lanes sg))
           \<and> map fst (LoopCalls (RunInner_generator T sg sched)) = concat (map slice_indices (sg_Lanes sg))
           \<and> SetupCalled (RunInner_generator T sg sched) = 1"
proof -
  let ?rs = "map (\<lambda>l. slice_calls (Start l) (StopBefore l)) (sg_Lanes sg)"
  have "length (sg_Lanes sg) \<le> 2 ^ 64" using assms(3) by simp
  then have ex: "exhausts claim_generator (prime_generator sg) ?rs (2 ^ 64)"
    by (rule exhausts_generator [OF assms(2)])
  have lim: "length ?rs + T \<le> 2 ^ 64" using assms(3) by simp
  show "all_done (RunInner_generator T sg sched)" if "runs_often T (length (sg_Lanes sg)) sched"
    unfolding RunInner_generator_def using runs_oftenD [OF that]
    by (intro stage_progress [where prime = prime_generator and c = sg, OF ex lim]) simp
  show "LoopCalls (RunInner_generator T sg sched)
             = concat (map (\<lambda>l. slice_calls (Start l) (StopBefore l)) (sg_Lanes sg))
           \<and> map fst (LoopCalls (RunInner_generator T sg sched)) = concat (map slice_indices (sg_Lanes sg))
           \<and> SetupCalled (RunInner_generator T sg sched) = 1"
    if "all_done (RunInner_generator T sg sched)"
    using stage_complete [where prime = prime_generator and c = sg, OF ex lim assms(1)] that
    unfolding RunInner_generator_def by (simp add: map_fst_slice_calls)
qed

lemma length_batch_calls:
  "length (concat (map (\<lambda>l. batch_calls l 0 (length (L ! l))) [0 ..< length L])) = length (concat L)"
proof -
  have "map (\<lambda>l. length (L ! l)) [0 ..< length L] = map length L"
    by (rule nth_equalityI) simp_all
  then show ?thesis by (simp add: length_concat comp_def batch_calls_def)
qed

lemma distinct_batch_calls:
  "distinct (map fst (concat (map (\<lambda>l. batch_calls l 0 (f l)) [0 ..< m])))"
proof (induction m)
  case 0
  show ?case by simp
next
  case (Suc m)
  have a: "map fst (batch_calls m 0 (f m)) = map (Pair m) [0 ..< f m]"
    by (simp add: batch_calls_def comp_def)
  have b: "fst ` fst ` set (concat (map (\<lambda>l. batch_calls l 0 (f l)) [0 ..< m])) \<subseteq> {0 ..< m}"
    by (auto simp: batch_calls_def)
  have "distinct (map (Pair m) [0 ..< f m])" by (simp add: distinct_map inj_on_def)
  moreover have "set (map fst (concat (map (\<lambda>l. batch_calls l 0 (f l)) [0 ..< m])))
      \<inter> set (map (Pair m) [0 ..< f m]) = {}"
    using b by (auto simp: batch_calls_def)
  ultimately show ?case using Suc a by simp
qed

lemma accumulator_complete:
  assumes "0 < T" and "pa_Progress pa = 0" and "length (pa_Lanes pa) + T \<le> 2 ^ 64"
  shows "runs_often T (length (pa_Lanes pa)) sched \<Longrightarrow> all_done (RunInner_accumulator T pa sched)"
    and "all_done (RunInner_accumulator T pa sched) \<Longrightarrow>
           LoopCalls (RunInner_accumulator T pa sched)
             = concat (map (\<lambda>l. batch_calls l 0 (length (pa_Lanes pa ! l))) [0 ..< length (pa_Lanes pa)])
           \<and> length (LoopCalls (RunInner_accumulator T pa sched)) = length (Join pa [])
           \<and> distinct (map fst (LoopCalls (RunInner_accumulator T pa sched)))
           \<and> SetupCalled (RunInner_accumulator T pa sched) = 1"
proof -
  let ?rs = "map (\<lambda>l. batch_calls l 0 (length (pa_Lanes pa ! l))) [0 ..< length (pa_Lanes pa)]"
  have "length (pa_Lanes pa) \<le> 2 ^ 64" using assms(3) by simp
  then have ex: "exhausts claim_accumulator (prime_accumulator pa) ?rs (2 ^ 64)"
    by (rule exhausts_accumulator [OF assms(2)])
  have lim: "length ?rs + T \<le> 2 ^ 64" using assms(3) by simp
  show "all_done (RunInner_accumulator T pa sched)" if "runs_often T (length (pa_Lanes pa)) sched"
    unfolding RunInner_accumulator_def using runs_oftenD [OF that]
    by (intro stage_progress [where prime = prime_accumulator and c = pa, OF ex lim]) simp
  show "LoopCalls (RunInner_accumulator T pa sched) = concat ?rs
           \<and> length (LoopCalls (RunInner_accumulator T pa sched)) = length (Join pa [])
           \<and> distinct (map fst (LoopCalls (RunInner_accumulator T pa sched)))
           \<and> SetupCalled (RunInner_accumulator T pa sched) = 1"
    if "all_done (RunInner_accumulator T pa sched)"
  proof -
    from stage_complete [where prime = prime_accumulator and c = pa, OF ex lim assms(1)] that
    have l: "LoopCalls (RunInner_accumulator T pa sched) = concat ?rs"
      and sc: "SetupCalled (RunInner_accumulator T pa sched) = 1"
      unfolding RunInner_accumulator_def by simp_all
    show ?thesis
      unfolding l using sc
      by (simp only: length_batch_calls distinct_batch_calls Join_def append_Nil simp_thms)
  qed
qed

lemma octree_complete:
  assumes "0 < T" and "linked (LeafNext c) (LeafNext c (DomainRoot c)) ps"
  shows "runs_often T (length ps) sched \<Longrightarrow> all_done (RunInner_octree T c sched)"
    and "all_done (RunInner_octree T c sched) \<Longrightarrow>
           LoopCalls (RunInner_octree T c sched) = map (\<lambda>q. (q, - 1)) ps
           \<and> SetupCalled (RunInner_octree T c sched) = 1"
proof -
  let ?rs = "map (\<lambda>q. [(q, - 1 :: int)]) ps"
  have ex: "exhausts claim_octree (prime_octree c) ?rs (length ?rs + T)"
    by (rule exhausts_octree [OF assms(2)])
  show "all_done (RunInner_octree T c sched)" if "runs_often T (length ps) sched"
    unfolding RunInner_octree_def using runs_oftenD [OF that]
    by (intro stage_progress [where prime = prime_octree and c = c, OF ex order_refl]) simp
  show "LoopCalls (RunInner_octree T c sched) = map (\<lambda>q. (q, - 1)) ps
           \<and> SetupCalled (RunInner_octree T c sched) = 1"
    if "all_done (RunInner_octree T c sched)"
    using stage_complete [where prime = prime_octree and c = c, OF ex order_refl assms(1)] that
    unfolding RunInner_octree_def by (simp add: concat_singletons)
qed


lemma linked_unique: "linked nx p xs \<Longrightarrow> linked nx p ys \<Longrightarrow> xs = ys"
proof (induction xs arbitrary: p ys)
  case Nil
  then show ?case by (cases ys) simp_all
next
  case (Cons x xs)
  then show ?case by (cases ys) auto
qed

lemma linked_suffix: "linked nx p (xs @ y # ys) \<Longrightarrow> linked nx (nx y) ys"
  by (induction xs arbitrary: p) simp_all

lemma linked_distinct: "linked nx p ps \<Longrightarrow> distinct ps"
proof (induction ps arbitrary: p)
  case Nil
  show ?case by simp
next
  case (Cons q qs)
  then have tl: "linked nx (nx q) qs" by simp
  have "q \<notin> set qs"
  proof
    assume "q \<in> set qs"
    then obtain a b where qs: "qs = a @ q # b" by (auto dest: split_list)
    with tl have "linked nx (nx q) b" by (auto dest: linked_suffix)
    with tl have "qs = b" by (rule linked_unique)
    with qs show False by simp
  qed
  with Cons.IH [OF tl] show ?case by simp
qed

text \<open>
  C2 (as amended). A stage run by \<open>T \<ge> 1\<close> callers, under any schedule: when every caller
  is scheduled often enough, all callers return; and once all callers have returned,
  \<^verbatim>\<open>Setup\<close> has run once and \<^verbatim>\<open>Loop\<close> has been called exactly once for every element of the
  domain and for nothing else (also for an empty domain and for one element):

  \<^item> random-access sequence of \<open>K \<le> 2 ^ 31\<close> elements, with \<open>K + T \<le> 2 ^ 32\<close>: elements
    \<open>0, \<dots>, K - 1\<close>, each with its own index;
  \<^item> forward-only sequence: elements \<open>0, \<dots>, K - 1\<close>, each with index -1;
  \<^item> \<^verbatim>\<open>SequenceGenerator\<close> (cursor at 0): the indices of its lanes, which are
    \<open>0, \<dots>, Count - 1\<close> when the lanes partition \<open>[0, Count)\<close>;
  \<^item> \<^verbatim>\<open>ParallelAccumulator\<close> (cursor at 0): every element of every lane, as many calls as
    \<^verbatim>\<open>Join\<close> merges elements, no element twice; the index argument starts at 0 in each lane;
  \<^item> octree leaves: the leaves linked from \<^verbatim>\<open>Domain->Next\<close>, all different, each with index -1.
\<close>

theorem RunInner_calls_Loop_once:
  "(0 < T \<and> NextIndex ra = 0 \<and> length (ra_Domain ra) \<le> 2 ^ 31 \<and> length (ra_Domain ra) + T \<le> 2 ^ 32 \<longrightarrow>
      (runs_often T (length (ra_Domain ra)) sched \<longrightarrow> all_done (RunInner_random_access T ra sched))
      \<and> (all_done (RunInner_random_access T ra sched) \<longrightarrow>
            LoopCalls (RunInner_random_access T ra sched) = map (\<lambda>i. (i, int i)) [0 ..< length (ra_Domain ra)]
            \<and> SetupCalled (RunInner_random_access T ra sched) = 1))
   \<and> (0 < T \<longrightarrow>
      (runs_often T (length (fw_Domain fw)) sched \<longrightarrow> all_done (RunInner_forward T fw sched))
      \<and> (all_done (RunInner_forward T fw sched) \<longrightarrow>
            LoopCalls (RunInner_forward T fw sched) = map (\<lambda>i. (i, - 1)) [0 ..< length (fw_Domain fw)]
            \<and> SetupCalled (RunInner_forward T fw sched) = 1))
   \<and> (0 < T \<and> sg_Progress sg = 0 \<and> length (sg_Lanes sg) + T \<le> 2 ^ 64 \<longrightarrow>
      (runs_often T (length (sg_Lanes sg)) sched \<longrightarrow> all_done (RunInner_generator T sg sched))
      \<and> (all_done (RunInner_generator T sg sched) \<longrightarrow>
            LoopCalls (RunInner_generator T sg sched)
              = concat (map (\<lambda>l. slice_calls (Start l) (StopBefore l)) (sg_Lanes sg))
            \<and> (lanes_partition (sg_Lanes sg) Count \<longrightarrow>
                 map fst (LoopCalls (RunInner_generator T sg sched)) = [0 ..< Count])
            \<and> SetupCalled (RunInner_generator T sg sched) = 1))
   \<and> (0 < T \<and> pa_Progress pa = 0 \<and> length (pa_Lanes pa) + T \<le> 2 ^ 64 \<longrightarrow>
      (runs_often T (length (pa_Lanes pa)) sched \<longrightarrow> all_done (RunInner_accumulator T pa sched))
      \<and> (all_done (RunInner_accumulator T pa sched) \<longrightarrow>
            LoopCalls (RunInner_accumulator T pa sched)
              = concat (map (\<lambda>l. batch_calls l 0 (length (pa_Lanes pa ! l))) [0 ..< length (pa_Lanes pa)])
            \<and> length (LoopCalls (RunInner_accumulator T pa sched)) = length (Join pa [])
            \<and> distinct (map fst (LoopCalls (RunInner_accumulator T pa sched)))
            \<and> SetupCalled (RunInner_accumulator T pa sched) = 1))
   \<and> (0 < T \<and> linked (LeafNext oc) (LeafNext oc (DomainRoot oc)) ps \<longrightarrow>
      (runs_often T (length ps) sched \<longrightarrow> all_done (RunInner_octree T oc sched))
      \<and> (all_done (RunInner_octree T oc sched) \<longrightarrow>
            LoopCalls (RunInner_octree T oc sched) = map (\<lambda>q. (q, - 1)) ps
            \<and> distinct ps
            \<and> SetupCalled (RunInner_octree T oc sched) = 1))"
proof (intro conjI)
  show "0 < T \<and> NextIndex ra = 0 \<and> length (ra_Domain ra) \<le> 2 ^ 31 \<and> length (ra_Domain ra) + T \<le> 2 ^ 32 \<longrightarrow>
      (runs_often T (length (ra_Domain ra)) sched \<longrightarrow> all_done (RunInner_random_access T ra sched))
      \<and> (all_done (RunInner_random_access T ra sched) \<longrightarrow>
            LoopCalls (RunInner_random_access T ra sched) = map (\<lambda>i. (i, int i)) [0 ..< length (ra_Domain ra)]
            \<and> SetupCalled (RunInner_random_access T ra sched) = 1)"
  proof (intro impI)
    assume a: "0 < T \<and> NextIndex ra = 0 \<and> length (ra_Domain ra) \<le> 2 ^ 31 \<and> length (ra_Domain ra) + T \<le> 2 ^ 32"
    then have m: "min (length (ra_Domain ra)) (2 ^ 31) = length (ra_Domain ra)" by simp
    have h: "0 < T" "NextIndex ra = 0" "length (ra_Domain ra) \<le> 2 ^ 63"
      "min (length (ra_Domain ra)) (2 ^ 31) + T \<le> 2 ^ 32"
      using a by simp_all
    from random_access_complete [OF h, of sched] show
      "(runs_often T (length (ra_Domain ra)) sched \<longrightarrow> all_done (RunInner_random_access T ra sched))
      \<and> (all_done (RunInner_random_access T ra sched) \<longrightarrow>
            LoopCalls (RunInner_random_access T ra sched) = map (\<lambda>i. (i, int i)) [0 ..< length (ra_Domain ra)]
            \<and> SetupCalled (RunInner_random_access T ra sched) = 1)"
      unfolding m by blast
  qed
next
  show "0 < T \<longrightarrow>
      (runs_often T (length (fw_Domain fw)) sched \<longrightarrow> all_done (RunInner_forward T fw sched))
      \<and> (all_done (RunInner_forward T fw sched) \<longrightarrow>
            LoopCalls (RunInner_forward T fw sched) = map (\<lambda>i. (i, - 1)) [0 ..< length (fw_Domain fw)]
            \<and> SetupCalled (RunInner_forward T fw sched) = 1)"
    using forward_complete [of T fw sched] by blast
next
  show "0 < T \<and> sg_Progress sg = 0 \<and> length (sg_Lanes sg) + T \<le> 2 ^ 64 \<longrightarrow>
      (runs_often T (length (sg_Lanes sg)) sched \<longrightarrow> all_done (RunInner_generator T sg sched))
      \<and> (all_done (RunInner_generator T sg sched) \<longrightarrow>
            LoopCalls (RunInner_generator T sg sched)
              = concat (map (\<lambda>l. slice_calls (Start l) (StopBefore l)) (sg_Lanes sg))
            \<and> (lanes_partition (sg_Lanes sg) Count \<longrightarrow>
                 map fst (LoopCalls (RunInner_generator T sg sched)) = [0 ..< Count])
            \<and> SetupCalled (RunInner_generator T sg sched) = 1)"
    using generator_complete [of T sg sched] by (auto simp: lanes_partition_def)
next
  show "0 < T \<and> pa_Progress pa = 0 \<and> length (pa_Lanes pa) + T \<le> 2 ^ 64 \<longrightarrow>
      (runs_often T (length (pa_Lanes pa)) sched \<longrightarrow> all_done (RunInner_accumulator T pa sched))
      \<and> (all_done (RunInner_accumulator T pa sched) \<longrightarrow>
            LoopCalls (RunInner_accumulator T pa sched)
              = concat (map (\<lambda>l. batch_calls l 0 (length (pa_Lanes pa ! l))) [0 ..< length (pa_Lanes pa)])
            \<and> length (LoopCalls (RunInner_accumulator T pa sched)) = length (Join pa [])
            \<and> distinct (map fst (LoopCalls (RunInner_accumulator T pa sched)))
            \<and> SetupCalled (RunInner_accumulator T pa sched) = 1)"
    using accumulator_complete [of T pa sched] by blast
next
  show "0 < T \<and> linked (LeafNext oc) (LeafNext oc (DomainRoot oc)) ps \<longrightarrow>
      (runs_often T (length ps) sched \<longrightarrow> all_done (RunInner_octree T oc sched))
      \<and> (all_done (RunInner_octree T oc sched) \<longrightarrow>
            LoopCalls (RunInner_octree T oc sched) = map (\<lambda>q. (q, - 1)) ps
            \<and> distinct ps
            \<and> SetupCalled (RunInner_octree T oc sched) = 1)"
    using octree_complete [of T oc ps sched] linked_distinct [of "LeafNext oc" _ ps] by blast
qed

lemma count_list_replicate: "count_list (replicate n x) x = n"
  by (induction n) simp_all

lemma random_access_overflow:
  fixes n :: nat
  assumes n: "n = 2 ^ 31"
  shows "all_done (RunInner_random_access 1 \<lparr>ra_Domain = replicate (n + 1) (), NextIndex = 0\<rparr>
            (replicate (n + 3) 0))
         \<and> length (LoopCalls (RunInner_random_access 1 \<lparr>ra_Domain = replicate (n + 1) (), NextIndex = 0\<rparr>
            (replicate (n + 3) 0))) = n"
proof -
  let ?c = "\<lparr>ra_Domain = replicate (n + 1) (), NextIndex = 0\<rparr>"
  let ?sched = "replicate (n + 3) (0::nat)"
  have len: "length (ra_Domain ?c) = n + 1" by simp
  have m: "min (length (ra_Domain ?c)) (2 ^ 31) = n" unfolding len n by simp
  have h: "0 < (1::nat)" "NextIndex ?c = 0" "length (ra_Domain ?c) \<le> 2 ^ 63"
    "min (length (ra_Domain ?c)) (2 ^ 31) + 1 \<le> 2 ^ 32"
    unfolding m unfolding len n by simp_all
  have "runs_often 1 n ?sched"
    by (simp add: runs_often_def count_list_replicate)
  then have d: "all_done (RunInner_random_access 1 ?c ?sched)"
    using random_access_complete(1) [OF h, of ?sched] unfolding m by simp
  from random_access_complete(2) [OF h d]
  have "LoopCalls (RunInner_random_access 1 ?c ?sched) = map (\<lambda>i. (i, int i)) [0 ..< n]"
    unfolding m by simp
  then have "length (LoopCalls (RunInner_random_access 1 ?c ?sched)) = n" by simp
  with d show ?thesis by simp
qed

text \<open>
  C2 as stated fails for a random-access domain with more than \<open>2 ^ 31\<close> elements: the claim
  counter is a 32-bit \<^verbatim>\<open>int\<close>. With \<open>2 ^ 31 + 1\<close> elements and one caller, the claim after
  index \<open>2 ^ 31 - 1\<close> returns \<open>- 2 ^ 31\<close>, which as \<^verbatim>\<open>size_t\<close> is not below the range; the caller
  returns after \<open>2 ^ 31\<close> \<^verbatim>\<open>Loop\<close> calls and the last element is never claimed.
\<close>

theorem RunInner_random_access_skips_elements:
  "all_done (RunInner_random_access 1 \<lparr>ra_Domain = replicate (2 ^ 31 + 1) (), NextIndex = 0\<rparr>
      (replicate (2 ^ 31 + 3) 0))
   \<and> length (LoopCalls (RunInner_random_access 1 \<lparr>ra_Domain = replicate (2 ^ 31 + 1) (), NextIndex = 0\<rparr>
      (replicate (2 ^ 31 + 3) 0))) = 2 ^ 31
   \<and> length (ra_Domain \<lparr>ra_Domain = replicate (2 ^ 31 + 1) (), NextIndex = 0\<rparr>) = 2 ^ 31 + 1"
  using random_access_overflow [OF refl] by simp


theorem RunInner_calls_Loop_once_witness:
  "LoopCalls (RunInner_random_access 2 \<lparr>ra_Domain = [''a'', ''b''], NextIndex = 0\<rparr> [0, 1, 0, 1, 0, 1, 0, 1])
     = [(0, 0), (1, 1)]
   \<and> LoopCalls (RunInner_forward 2 \<lparr>fw_Domain = [''a'', ''b''], NextIter = 7, StopIter = 9\<rparr>
        [0, 1, 0, 1, 0, 1, 0, 1]) = [(0, - 1), (1, - 1)]
   \<and> map fst (LoopCalls (RunInner_generator 2
        \<lparr>sg_Lanes = [\<lparr>Start = 0, StopBefore = 1\<rparr>, \<lparr>Start = 1, StopBefore = 2\<rparr>], sg_Progress = 0\<rparr>
        [0, 1, 0, 1, 0, 1, 0, 1])) = [0, 1]
   \<and> LoopCalls (RunInner_accumulator 2 \<lparr>pa_Lanes = [[10, 11], [12 :: nat]], pa_Progress = 0\<rparr>
        [0, 1, 0, 1, 0, 1, 0, 1]) = [((0, 0), 0), ((0, 1), 1), ((1, 0), 0)]
   \<and> LoopCalls (RunInner_octree 2
        \<lparr>LeafNext = (\<lambda>p. None)(0 \<mapsto> 5, 5 \<mapsto> 3), DomainRoot = 0, NextLeaf = None\<rparr>
        [0, 1, 0, 1, 0, 1, 0, 1]) = [(5, - 1), (3, - 1)]"
proof -
  let ?sched = "[0, 1, 0, 1, 0, 1, 0, 1] :: nat list"
  let ?ra = "\<lparr>ra_Domain = [''a'', ''b''], NextIndex = 0\<rparr>"
  let ?fw = "\<lparr>fw_Domain = [''a'', ''b''], NextIter = 7, StopIter = 9\<rparr>"
  let ?sg = "\<lparr>sg_Lanes = [\<lparr>Start = 0, StopBefore = 1\<rparr>, \<lparr>Start = 1, StopBefore = 2\<rparr>], sg_Progress = 0\<rparr>"
  let ?pa = "\<lparr>pa_Lanes = [[10, 11], [12 :: nat]], pa_Progress = 0\<rparr>"
  let ?oc = "\<lparr>LeafNext = (\<lambda>p. None)(0 \<mapsto> 5, 5 \<mapsto> 3), DomainRoot = 0, NextLeaf = None\<rparr>"
  have often: "runs_often 2 2 ?sched" by (simp add: runs_often_def upt_rec)
  have part: "lanes_partition (sg_Lanes ?sg) 2"
    by (simp add: lanes_partition_def slice_indices_def upt_rec)
  have lk: "linked (LeafNext ?oc) (LeafNext ?oc (DomainRoot ?oc)) [5, 3]" by simp
  note inst = RunInner_calls_Loop_once [where T = 2 and sched = ?sched and ra = ?ra and fw = ?fw
      and sg = ?sg and Count = 2 and pa = ?pa and oc = ?oc and ps = "[5, 3]"]
  have h1: "0 < (2::nat) \<and> NextIndex ?ra = 0 \<and> length (ra_Domain ?ra) \<le> 2 ^ 31
      \<and> length (ra_Domain ?ra) + 2 \<le> 2 ^ 32" by simp
  have o1: "runs_often 2 (length (ra_Domain ?ra)) ?sched" by (simp add: runs_often_def upt_rec)
  from inst h1 o1
  have "LoopCalls (RunInner_random_access 2 ?ra ?sched) = map (\<lambda>i. (i, int i)) [0 ..< length (ra_Domain ?ra)]"
    by blast
  then have ra: "LoopCalls (RunInner_random_access 2 ?ra ?sched) = [(0, 0), (1, 1)]"
    by (simp add: upt_rec)
  have h2: "0 < (2::nat)" by simp
  have o2: "runs_often 2 (length (fw_Domain ?fw)) ?sched" by (simp add: runs_often_def upt_rec)
  from inst h2 o2
  have "LoopCalls (RunInner_forward 2 ?fw ?sched) = map (\<lambda>i. (i, - 1)) [0 ..< length (fw_Domain ?fw)]"
    by blast
  then have fw: "LoopCalls (RunInner_forward 2 ?fw ?sched) = [(0, - 1), (1, - 1)]"
    by (simp add: upt_rec)
  have h3: "0 < (2::nat) \<and> sg_Progress ?sg = 0 \<and> length (sg_Lanes ?sg) + 2 \<le> 2 ^ 64" by simp
  have o3: "runs_often 2 (length (sg_Lanes ?sg)) ?sched" by (simp add: runs_often_def upt_rec)
  from inst h3 o3 part
  have "map fst (LoopCalls (RunInner_generator 2 ?sg ?sched)) = [0 ..< 2]"
    by blast
  then have sg: "map fst (LoopCalls (RunInner_generator 2 ?sg ?sched)) = [0, 1]"
    by (simp add: upt_rec)
  have h4: "0 < (2::nat) \<and> pa_Progress ?pa = 0 \<and> length (pa_Lanes ?pa) + 2 \<le> 2 ^ 64" by simp
  have o4: "runs_often 2 (length (pa_Lanes ?pa)) ?sched" by (simp add: runs_often_def upt_rec)
  from inst h4 o4
  have "LoopCalls (RunInner_accumulator 2 ?pa ?sched)
      = concat (map (\<lambda>l. batch_calls l 0 (length (pa_Lanes ?pa ! l))) [0 ..< length (pa_Lanes ?pa)])"
    by blast
  then have pa: "LoopCalls (RunInner_accumulator 2 ?pa ?sched)
      = [((0, 0), 0), ((0, 1), 1), ((1, 0), 0)]"
    by (simp add: upt_rec batch_calls_def wrap_int32_def)
  have h5: "0 < (2::nat) \<and> linked (LeafNext ?oc) (LeafNext ?oc (DomainRoot ?oc)) [5, 3]"
    using lk by simp
  have o5: "runs_often 2 (length [5 :: nat, 3]) ?sched" by (simp add: runs_often_def upt_rec)
  from inst h5 o5
  have "LoopCalls (RunInner_octree 2 ?oc ?sched) = map (\<lambda>q. (q, - 1)) [5, 3]"
    by blast
  then have oc: "LoopCalls (RunInner_octree 2 ?oc ?sched) = [(5, - 1), (3, - 1)]"
    by simp
  from ra fw sg pa oc show ?thesis by (intro conjI)
qed

end
